theory Spec2Isabelle
  imports Complex_Main
begin

section \<open>Strings\<close>

text \<open>
  A string of the program is a list of characters. A \<^typ>\<open>char\<close> stands for the code unit
  with the same number, U+0000 to U+00FF. In that range the white space and line
  terminators that \<^verbatim>\<open>String.prototype.trim\<close> removes are TAB, LF, VT, FF, CR, SPACE and
  NO-BREAK SPACE.
\<close>

definition is_space :: "char \<Rightarrow> bool" where
  "is_space c \<longleftrightarrow>
     c = CHR 0x09 \<or> c = CHR 0x0A \<or> c = CHR 0x0B \<or> c = CHR 0x0C \<or> c = CHR 0x0D \<or>
     c = CHR 0x20 \<or> c = CHR 0xA0"

definition trim :: "string \<Rightarrow> string" where
  "trim s = rev (dropWhile is_space (rev (dropWhile is_space s)))"

text \<open>
  \<^verbatim>\<open>toLowerCase\<close> on the code units U+0000 to U+00FF: the letters A to Z and the letters
  U+00C0 to U+00DE other than the multiplication sign U+00D7 move up by 0x20, which sets
  bit 5 of the code unit; every other code unit stays.
\<close>

definition is_upper :: "char \<Rightarrow> bool" where
  "is_upper c \<longleftrightarrow>
     (let n = (of_char c :: nat)
      in (65 \<le> n \<and> n \<le> 90) \<or> (192 \<le> n \<and> n \<le> 222 \<and> n \<noteq> 215))"

fun lower_char :: "char \<Rightarrow> char" where
  "lower_char (Char b0 b1 b2 b3 b4 b5 b6 b7) =
     (if is_upper (Char b0 b1 b2 b3 b4 b5 b6 b7) then Char b0 b1 b2 b3 b4 True b6 b7
      else Char b0 b1 b2 b3 b4 b5 b6 b7)"

definition toLowerCase :: "string \<Rightarrow> string" where
  "toLowerCase s = map lower_char s"

text \<open>\<^verbatim>\<open>s.includes(w)\<close>: \<open>w\<close> occurs in \<open>s\<close> as a contiguous block.\<close>

fun starts_with :: "string \<Rightarrow> string \<Rightarrow> bool" where
  "starts_with s [] = True"
| "starts_with [] (w # ws) = False"
| "starts_with (c # cs) (w # ws) = (c = w \<and> starts_with cs ws)"

fun includes_str :: "string \<Rightarrow> string \<Rightarrow> bool" where
  "includes_str [] w = starts_with [] w"
| "includes_str (c # cs) w = (starts_with (c # cs) w \<or> includes_str cs w)"

section \<open>The speech hook (src/hooks/useSpeech.ts)\<close>

subsection \<open>Sentence fragments\<close>

text \<open>
  \<^verbatim>\<open>text.match(/[^.!?]+[.!?\n]*/g)\<close>. The class \<^verbatim>\<open>[^.!?]\<close> accepts every character
  but the three terminators, the line feed included; \<^verbatim>\<open>[.!?\n]\<close> accepts the three
  terminators and the line feed. Both quantifiers are greedy, and the second accepts the
  empty run, so a match that starts at a position takes the longest run of the first
  class there and then the longest run of the second. A position where the first class
  fails starts no match, and the search moves one character on. The next search starts
  where the previous match ended.
\<close>

definition is_terminator :: "char \<Rightarrow> bool" where
  "is_terminator c \<longleftrightarrow> c = CHR ''.'' \<or> c = CHR ''!'' \<or> c = CHR ''?''"

definition is_delimiter :: "char \<Rightarrow> bool" where
  "is_delimiter c \<longleftrightarrow> is_terminator c \<or> c = CHR 0x0A"

function match_sentences :: "string \<Rightarrow> string list" where
  "match_sentences [] = []"
| "match_sentences (c # cs) =
     (if is_terminator c then match_sentences cs
      else (takeWhile (\<lambda>x. \<not> is_terminator x) (c # cs) @
            takeWhile is_delimiter (dropWhile (\<lambda>x. \<not> is_terminator x) (c # cs)))
           # match_sentences
               (dropWhile is_delimiter (dropWhile (\<lambda>x. \<not> is_terminator x) (c # cs))))"
  by pat_completeness auto
termination
proof (relation "measure length")
  show "wf (measure length)" by simp
next
  fix c :: char and cs :: string
  assume "is_terminator c"
  then show "(cs, c # cs) \<in> measure length" by simp
next
  fix c :: char and cs :: string
  assume nt: "\<not> is_terminator c"
  have "length (dropWhile is_delimiter (dropWhile (\<lambda>x. \<not> is_terminator x) cs))
          \<le> length (dropWhile (\<lambda>x. \<not> is_terminator x) cs)"
    by (rule length_dropWhile_le)
  also have "\<dots> \<le> length cs"
    by (rule length_dropWhile_le)
  finally show "(dropWhile is_delimiter (dropWhile (\<lambda>x. \<not> is_terminator x) (c # cs)), c # cs)
                  \<in> measure length"
    using nt by simp
qed

text \<open>\<^verbatim>\<open>text.match(...) || [text]\<close>: \<^verbatim>\<open>match\<close> gives \<^verbatim>\<open>null\<close> when nothing matches.\<close>

definition sentences :: "string \<Rightarrow> string list" where
  "sentences text = (case match_sentences text of [] \<Rightarrow> [text] | m # ms \<Rightarrow> m # ms)"

text \<open>\<^verbatim>\<open>sentences.filter(s => s.trim().length > 0)\<close>\<close>

definition spoken_fragments :: "string \<Rightarrow> string list" where
  "spoken_fragments text = filter (\<lambda>s. length (trim s) > 0) (sentences text)"

subsection \<open>State of the hook\<close>

datatype SpeechState = Idle | Standby | Listening | Speaking

text \<open>
  The handlers installed on the recognition object. A handler is a closure: the standby
  handlers hold the trigger word and the \<^verbatim>\<open>speechState\<close> of the render that created
  \<^verbatim>\<open>startStandby\<close>, the listening handlers hold that render's \<^verbatim>\<open>speechState\<close>.
\<close>

datatype handlers =
    NoHandlers
  | StandbyHandlers string SpeechState
  | ListeningHandlers SpeechState

record recognition =
  continuous :: bool
  interimResults :: bool
  installed :: handlers

text \<open>What the hook does to the outside: calls of its callbacks and of the platform.\<close>

datatype effect =
    OnActivation
  | OnTranscript string
  | SynthSpeak string
  | RecognitionStart
  | RecognitionStop
  | UncaughtTypeError

record speech =
  speechState :: SpeechState
  permissionError :: "string option"
  recognitionRef :: "recognition option"
  sentenceQueueRef :: "string list"
  currentUtteranceRef :: "string option"
  wakeWordDetectedRef :: bool
  effects :: "effect list"

definition emit :: "effect \<Rightarrow> speech \<Rightarrow> speech" where
  "emit e st = st\<lparr>effects := effects st @ [e]\<rparr>"

definition permission_denied :: string where
  "permission_denied =
     ''Microphone permission denied. Please enable it in your browser settings.''"

subsection \<open>Speech synthesis\<close>

text \<open>
  \<^verbatim>\<open>processSentenceQueue\<close> reads \<^verbatim>\<open>speechState\<close> from its closure: \<open>seen\<close> is the value of
  the render that created the callback. \<^verbatim>\<open>shift()\<close> takes the head of the queue; the
  empty string is falsy, so an empty head is dropped and the state set back to idle.
\<close>

definition processSentenceQueue :: "SpeechState \<Rightarrow> speech \<Rightarrow> speech" where
  "processSentenceQueue seen st =
     (if seen = Speaking \<or> length (sentenceQueueRef st) = 0 then st
      else (case sentenceQueueRef st of
              [] \<Rightarrow> st
            | textToSpeak # queue \<Rightarrow>
                if textToSpeak \<noteq> [] then
                  emit (SynthSpeak textToSpeak)
                    (st\<lparr>speechState := Speaking, sentenceQueueRef := queue,
                        currentUtteranceRef := Some textToSpeak\<rparr>)
                else st\<lparr>speechState := Idle, sentenceQueueRef := queue\<rparr>))"

text \<open>The \<^verbatim>\<open>push\<close> of \<^verbatim>\<open>speak\<close>, before \<^verbatim>\<open>processSentenceQueue\<close> runs.\<close>

definition enqueue :: "string \<Rightarrow> speech \<Rightarrow> speech" where
  "enqueue text st = st\<lparr>sentenceQueueRef := sentenceQueueRef st @ spoken_fragments text\<rparr>"

definition speak :: "SpeechState \<Rightarrow> string \<Rightarrow> speech \<Rightarrow> speech" where
  "speak seen text st = processSentenceQueue seen (enqueue text st)"

text \<open>
  The handlers of an utterance call the \<^verbatim>\<open>processSentenceQueue\<close> that created it, with
  the \<^verbatim>\<open>speechState\<close> that callback has seen.
\<close>

definition utterance_onend :: "SpeechState \<Rightarrow> speech \<Rightarrow> speech" where
  "utterance_onend seen st =
     (if length (sentenceQueueRef st) > 0 then processSentenceQueue seen st
      else st\<lparr>speechState := Idle\<rparr>)"

definition utterance_onerror :: "SpeechState \<Rightarrow> speech \<Rightarrow> speech" where
  "utterance_onerror seen st = processSentenceQueue seen (st\<lparr>speechState := Idle\<rparr>)"

subsection \<open>Speech recognition\<close>

definition stopCurrentRecognition :: "speech \<Rightarrow> speech" where
  "stopCurrentRecognition st =
     (case recognitionRef st of
        None \<Rightarrow> st
      | Some r \<Rightarrow> emit RecognitionStop (st\<lparr>recognitionRef := Some (r\<lparr>installed := NoHandlers\<rparr>)\<rparr>))"

text \<open>
  \<^verbatim>\<open>startStandby\<close> and \<^verbatim>\<open>startListening\<close> are called through the callbacks of the
  latest render, so the \<^verbatim>\<open>permissionError\<close> and \<^verbatim>\<open>speechState\<close> of their closures are
  those of the state at the call. A string is truthy when it is not empty.
\<close>

definition truthy_error :: "string option \<Rightarrow> bool" where
  "truthy_error e = (case e of None \<Rightarrow> False | Some m \<Rightarrow> m \<noteq> [])"

definition startStandby :: "string \<Rightarrow> speech \<Rightarrow> speech" where
  "startStandby triggerWord st =
     (if truthy_error (permissionError st) then st
      else let st1 = stopCurrentRecognition st
           in (case recognitionRef st1 of
                 None \<Rightarrow> st1
               | Some r \<Rightarrow>
                   if triggerWord = [] then st1
                   else emit RecognitionStart
                          (st1\<lparr>speechState := Standby, wakeWordDetectedRef := False,
                               recognitionRef := Some
                                 \<lparr>continuous = True, interimResults = True,
                                  installed = StandbyHandlers triggerWord (speechState st)\<rparr>\<rparr>)))"

definition startListening :: "speech \<Rightarrow> speech" where
  "startListening st =
     (if truthy_error (permissionError st) then st
      else let st1 = stopCurrentRecognition st
           in (case recognitionRef st1 of
                 None \<Rightarrow> st1
               | Some r \<Rightarrow>
                   emit RecognitionStart
                     (st1\<lparr>speechState := Listening,
                          recognitionRef := Some
                            \<lparr>continuous = False, interimResults = False,
                             installed = ListeningHandlers (speechState st)\<rparr>\<rparr>)))"

text \<open>
  A result event: the list of results, each the list of the transcripts of its
  alternatives. Reading an index that is not there gives \<^verbatim>\<open>undefined\<close>, and the next
  property access throws a TypeError, which leaves the handler.
\<close>

type_synonym result_event = "string list list"

definition transcript_at :: "result_event \<Rightarrow> int \<Rightarrow> string option" where
  "transcript_at results i =
     (if 0 \<le> i \<and> i < int (length results)
      then (case results ! nat i of [] \<Rightarrow> None | alt # alts \<Rightarrow> Some alt)
      else None)"

text \<open>The test of the standby handler on the transcript it reads.\<close>

definition wake_match :: "string \<Rightarrow> string \<Rightarrow> bool" where
  "wake_match triggerWord segment = includes_str (trim (toLowerCase segment)) (toLowerCase triggerWord)"

definition standby_onresult :: "string \<Rightarrow> result_event \<Rightarrow> speech \<Rightarrow> speech" where
  "standby_onresult triggerWord results st =
     (case transcript_at results (int (length results) - 1) of
        None \<Rightarrow> emit UncaughtTypeError st
      | Some segment \<Rightarrow>
          if wake_match triggerWord segment \<and> \<not> wakeWordDetectedRef st
          then emit OnActivation (st\<lparr>wakeWordDetectedRef := True\<rparr>)
          else st)"

definition standby_onend :: "SpeechState \<Rightarrow> speech \<Rightarrow> speech" where
  "standby_onend seen st =
     (if \<not> wakeWordDetectedRef st \<and> seen = Standby then emit RecognitionStart st else st)"

definition standby_onerror :: "string \<Rightarrow> speech \<Rightarrow> speech" where
  "standby_onerror err st =
     (if err = ''not-allowed'' then
        (stopCurrentRecognition st)\<lparr>permissionError := Some permission_denied, speechState := Idle\<rparr>
      else if err \<noteq> ''no-speech'' then st\<lparr>speechState := Idle\<rparr>
      else st)"

definition listening_onresult :: "result_event \<Rightarrow> speech \<Rightarrow> speech" where
  "listening_onresult results st =
     (case transcript_at results 0 of
        None \<Rightarrow> emit UncaughtTypeError st
      | Some t \<Rightarrow> if trim t \<noteq> [] then emit (OnTranscript (trim t)) st else st)"

definition listening_onend :: "SpeechState \<Rightarrow> speech \<Rightarrow> speech" where
  "listening_onend seen st = (if seen = Listening then st\<lparr>speechState := Idle\<rparr> else st)"

definition listening_onerror :: "string \<Rightarrow> speech \<Rightarrow> speech" where
  "listening_onerror err st =
     (if err = ''not-allowed''
      then st\<lparr>permissionError := Some permission_denied, speechState := Idle\<rparr>
      else st\<lparr>speechState := Idle\<rparr>)"

text \<open>
  The recognition object delivers an event to the handler that is installed when the
  event arrives; with no handler installed nothing runs.
\<close>

definition installed_handlers :: "speech \<Rightarrow> handlers" where
  "installed_handlers st = (case recognitionRef st of None \<Rightarrow> NoHandlers | Some r \<Rightarrow> installed r)"

definition recognition_onresult :: "result_event \<Rightarrow> speech \<Rightarrow> speech" where
  "recognition_onresult results st =
     (case installed_handlers st of
        NoHandlers \<Rightarrow> st
      | StandbyHandlers w seen \<Rightarrow> standby_onresult w results st
      | ListeningHandlers seen \<Rightarrow> listening_onresult results st)"

definition recognition_onend :: "speech \<Rightarrow> speech" where
  "recognition_onend st =
     (case installed_handlers st of
        NoHandlers \<Rightarrow> st
      | StandbyHandlers w seen \<Rightarrow> standby_onend seen st
      | ListeningHandlers seen \<Rightarrow> listening_onend seen st)"

definition recognition_onerror :: "string \<Rightarrow> speech \<Rightarrow> speech" where
  "recognition_onerror err st =
     (case installed_handlers st of
        NoHandlers \<Rightarrow> st
      | StandbyHandlers w seen \<Rightarrow> standby_onerror err st
      | ListeningHandlers seen \<Rightarrow> listening_onerror err st)"

text \<open>
  Everything that can happen to the hook: a call of its interface or a platform event.
  The source file ends inside \<^verbatim>\<open>startListening\<close>; what follows it there, the
  \<^verbatim>\<open>stop\<close> of the interface among it, is not an action here.
\<close>

datatype action =
    Speak SpeechState string
  | StartStandby string
  | StartListening
  | RecognitionResult result_event
  | RecognitionEnd
  | RecognitionError string
  | UtteranceEnd SpeechState
  | UtteranceError SpeechState

fun perform :: "speech \<Rightarrow> action \<Rightarrow> speech" where
  "perform st (Speak seen text) = speak seen text st"
| "perform st (StartStandby w) = startStandby w st"
| "perform st StartListening = startListening st"
| "perform st (RecognitionResult results) = recognition_onresult results st"
| "perform st RecognitionEnd = recognition_onend st"
| "perform st (RecognitionError err) = recognition_onerror err st"
| "perform st (UtteranceEnd seen) = utterance_onend seen st"
| "perform st (UtteranceError seen) = utterance_onerror seen st"

definition run :: "speech \<Rightarrow> action list \<Rightarrow> speech" where
  "run st acts = foldl perform st acts"

text \<open>
  The hook as \<^verbatim>\<open>useState\<close> and \<^verbatim>\<open>useRef\<close> initialise it. The recognition object is
  created in the part of the file that is not at hand, so it is the parameter \<open>r\<close>.
\<close>

definition initial :: "recognition option \<Rightarrow> speech" where
  "initial r =
     \<lparr>speechState = Idle, permissionError = None, recognitionRef = r, sentenceQueueRef = [],
      currentUtteranceRef = None, wakeWordDetectedRef = False, effects = []\<rparr>"
definition fresh_recognition :: recognition where
  "fresh_recognition = \<lparr>continuous = False, interimResults = False, installed = NoHandlers\<rparr>"

definition fragment :: "string \<Rightarrow> bool" where
  "fragment m \<longleftrightarrow>
     takeWhile (\<lambda>x. \<not> is_terminator x) m \<noteq> [] \<and>
     list_all is_delimiter (dropWhile (\<lambda>x. \<not> is_terminator x) m)"

fun chained :: "string list \<Rightarrow> bool" where
  "chained (m # n # ms) \<longleftrightarrow>
     dropWhile (\<lambda>x. \<not> is_terminator x) m \<noteq> [] \<and> \<not> is_delimiter (hd n) \<and> chained (n # ms)"
| "chained ms \<longleftrightarrow> True"

definition activations :: "speech \<Rightarrow> nat" where
  "activations st = length (filter (\<lambda>e. e = OnActivation) (effects st))"

definition detects :: "string \<Rightarrow> result_event \<Rightarrow> bool" where
  "detects w results =
     (case transcript_at results (int (length results) - 1) of
        None \<Rightarrow> False
      | Some segment \<Rightarrow> wake_match w segment)"

fun starts_standby :: "action \<Rightarrow> bool" where
  "starts_standby (StartStandby w) = True"
| "starts_standby a = False"

definition pending :: "speech \<Rightarrow> nat" where
  "pending st = activations st + (if wakeWordDetectedRef st then 0 else 1)"

section \<open>The Ollama service (src/services/ollama.ts)\<close>

subsection \<open>Errors and JSON values\<close>

text \<open>A thrown value: \<^verbatim>\<open>new Error(message)\<close>, or the error a rejected platform call carries.\<close>

datatype error = Error (message: string)

text \<open>
  What \<^verbatim>\<open>JSON.parse\<close> returns. An object holds its own properties, each key once. The
  parser itself belongs to the platform: the functions below take it as the parameter
  \<open>JSON_parse\<close>, which gives \<open>None\<close> where \<^verbatim>\<open>JSON.parse\<close> throws a SyntaxError.
\<close>

datatype json =
    JNull
  | JBool bool
  | JNum real
  | JStr string
  | JArr "json list"
  | JObj "(string \<times> json) list"

type_synonym parser = "string \<Rightarrow> json option"

text \<open>
  A value that may be \<^verbatim>\<open>undefined\<close> is a \<^typ>\<open>json option\<close>. Reading a property of
  \<^verbatim>\<open>null\<close> or \<^verbatim>\<open>undefined\<close> throws a TypeError (\<open>None\<close>); an object gives its own
  property or \<^verbatim>\<open>undefined\<close>; the other values have no property of the names read here.
\<close>

fun property :: "json option \<Rightarrow> string \<Rightarrow> json option option" where
  "property None k = None"
| "property (Some JNull) k = None"
| "property (Some (JObj kvs)) k = Some (map_of kvs k)"
| "property (Some v) k = Some None"

fun truthy :: "json option \<Rightarrow> bool" where
  "truthy None = False"
| "truthy (Some JNull) = False"
| "truthy (Some (JBool b)) = b"
| "truthy (Some (JNum x)) = (x \<noteq> 0)"
| "truthy (Some (JStr s)) = (s \<noteq> [])"
| "truthy (Some (JArr xs)) = True"
| "truthy (Some (JObj kvs)) = True"

subsection \<open>extractJson and generateJson\<close>

text \<open>\<^verbatim>\<open>indexOf\<close> and \<^verbatim>\<open>lastIndexOf\<close> of a character: its first or last position, or -1.\<close>

definition indexOf :: "string \<Rightarrow> char \<Rightarrow> int" where
  "indexOf s c = (if c \<in> set s then int (length (takeWhile (\<lambda>x. x \<noteq> c) s)) else - 1)"

definition lastIndexOf :: "string \<Rightarrow> char \<Rightarrow> int" where
  "lastIndexOf s c =
     (if c \<in> set s then int (length s) - 1 - int (length (takeWhile (\<lambda>x. x \<noteq> c) (rev s)))
      else - 1)"

text \<open>
  \<^verbatim>\<open>substring(start, end)\<close> brings both indices into the range from 0 to the length and
  swaps them when the first is the larger.
\<close>

definition substring :: "string \<Rightarrow> int \<Rightarrow> int \<Rightarrow> string" where
  "substring s start end' =
     (let n = int (length s);
          a = max 0 (min start n);
          b = max 0 (min end' n);
          lo = min a b;
          hi = max a b
      in take (nat (hi - lo)) (drop (nat lo) s))"

definition extractJson :: "string \<Rightarrow> string option" where
  "extractJson text0 =
     (let text = trim text0;
          firstBrace = indexOf text CHR ''{'';
          firstBracket = indexOf text CHR ''[''
      in if firstBrace = - 1 \<and> firstBracket = - 1 then None
         else if firstBrace \<noteq> - 1 \<and> (firstBrace < firstBracket \<or> firstBracket = - 1) then
           (let startIndex = firstBrace;
                lastBrace = lastIndexOf text CHR ''}''
            in if lastBrace > startIndex then Some (substring text startIndex (lastBrace + 1))
               else None)
         else if firstBracket \<noteq> - 1 then
           (let startIndex = firstBracket;
                lastBracket = lastIndexOf text CHR '']''
            in if lastBracket > startIndex then Some (substring text startIndex (lastBracket + 1))
               else None)
         else None)"

text \<open>
  The two errors of \<^verbatim>\<open>generateJson\<close>, under the names the specification gives them. Both
  are plain \<^verbatim>\<open>Error\<close> objects, told apart by their messages.
\<close>

definition ExtractionError :: "string \<Rightarrow> error" where
  "ExtractionError raw =
     Error (''Model did not return a valid JSON object. Raw response: '' @ raw)"

definition ParseError :: "string \<Rightarrow> error" where
  "ParseError raw = Error (''Failed to parse JSON. Raw response: '' @ raw)"

text \<open>
  \<^verbatim>\<open>generateJson\<close> after the request: \<open>generated\<close> is what \<^verbatim>\<open>generate\<close> gave, the
  \<^verbatim>\<open>response\<close> field of the reply or the error it threw. \<^verbatim>\<open>!jsonString\<close> holds for
  \<^verbatim>\<open>null\<close> and for the empty string.
\<close>

definition generateJson :: "parser \<Rightarrow> error + string \<Rightarrow> error + json" where
  "generateJson JSON_parse generated =
     (case generated of
        Inl e \<Rightarrow> Inl e
      | Inr response \<Rightarrow>
          (case extractJson response of
             None \<Rightarrow> Inl (ExtractionError response)
           | Some jsonString \<Rightarrow>
               if jsonString = [] then Inl (ExtractionError response)
               else (case JSON_parse jsonString of
                       None \<Rightarrow> Inl (ParseError response)
                     | Some v \<Rightarrow> Inr v)))"

subsection \<open>generateChatStream\<close>

text \<open>
  What the function does to the outside, in order: the calls of its three callbacks and
  the two \<^verbatim>\<open>console.error\<close> lines. A callback is recorded as an event and returns.
\<close>

datatype event =
    OnChunk json
  | OnError error
  | OnClose
  | LogParseFailure string
  | LogStreamError error

text \<open>
  A computation that calls out and then returns or throws: the events in order, and
  \<open>Inl\<close> the thrown error. \<^verbatim>\<open>try/catch\<close> runs the handler on a throw;
  \<^verbatim>\<open>try/finally\<close> runs the finalizer either way, and a finalizer that throws replaces the
  outcome.
\<close>

type_synonym 'a comp = "event list \<times> (error + 'a)"

definition call :: "event \<Rightarrow> unit comp" where
  "call ev = ([ev], Inr ())"

definition throw :: "error \<Rightarrow> 'a comp" where
  "throw e = ([], Inl e)"

definition seq :: "unit comp \<Rightarrow> 'a comp \<Rightarrow> 'a comp" where
  "seq m k = (case snd m of Inl e \<Rightarrow> (fst m, Inl e) | Inr u \<Rightarrow> (fst m @ fst k, snd k))"

definition try_catch :: "unit comp \<Rightarrow> (error \<Rightarrow> unit comp) \<Rightarrow> unit comp" where
  "try_catch m handler =
     (case snd m of
        Inl e \<Rightarrow> (fst m @ fst (handler e), snd (handler e))
      | Inr u \<Rightarrow> m)"

definition try_finally :: "unit comp \<Rightarrow> unit comp \<Rightarrow> unit comp" where
  "try_finally m finalizer =
     (fst m @ fst finalizer, (case snd finalizer of Inl e \<Rightarrow> Inl e | Inr u \<Rightarrow> snd m))"

text \<open>
  \<^verbatim>\<open>buffer.split('\n')\<close>: the pieces between the line feeds, at least one piece.
\<close>

fun split_nl :: "string \<Rightarrow> string list" where
  "split_nl [] = [[]]"
| "split_nl (c # cs) =
     (if c = CHR 0x0A then [] # split_nl cs
      else (case split_nl cs of
              [] \<Rightarrow> [[c]]
            | l # ls \<Rightarrow> (c # l) # ls))"

text \<open>
  The body of the \<^verbatim>\<open>for\<close> loop, for one line. The inner \<^verbatim>\<open>try/catch\<close> logs the
  SyntaxError of \<^verbatim>\<open>JSON.parse\<close> and the TypeError of reading \<^verbatim>\<open>message\<close> of
  \<^verbatim>\<open>null\<close>. \<^verbatim>\<open>chunkJson.message && chunkJson.message.content\<close> is truthy when both
  values are.
\<close>

definition process_line :: "parser \<Rightarrow> string \<Rightarrow> event list" where
  "process_line JSON_parse line =
     (if trim line = [] then []
      else (case JSON_parse line of
              None \<Rightarrow> [LogParseFailure line]
            | Some chunkJson \<Rightarrow>
                (case property (Some chunkJson) ''message'' of
                   None \<Rightarrow> [LogParseFailure line]
                 | Some msg \<Rightarrow>
                     if truthy msg then
                       (case property msg ''content'' of
                          None \<Rightarrow> [LogParseFailure line]
                        | Some content \<Rightarrow>
                            (case content of
                               None \<Rightarrow> []
                             | Some c \<Rightarrow> if truthy (Some c) then [OnChunk c] else []))
                     else [])))"

text \<open>
  The \<^verbatim>\<open>while\<close> loop over the reads that deliver a value, each value the text the
  decoder gives for it: the events, and the buffer when the values are used up.
  \<^verbatim>\<open>lines.pop()\<close> takes the last piece, which is the new buffer.
\<close>

fun read_loop :: "parser \<Rightarrow> string \<Rightarrow> string list \<Rightarrow> event list \<times> string" where
  "read_loop JSON_parse buffer [] = ([], buffer)"
| "read_loop JSON_parse buffer (v # vs) =
     (let lines = split_nl (buffer @ v);
          buffer' = last lines;
          evs = concat (map (process_line JSON_parse) (butlast lines));
          rest = read_loop JSON_parse buffer' vs
      in (evs @ fst rest, snd rest))"

text \<open>
  The reply to the request. A body is the values of its reads and how the reads end: the
  stream is done, or a read rejects. \<open>text_result\<close> is what \<^verbatim>\<open>response.text()\<close>
  gives. The request itself rejects on a network error and on the abort of the timeout.
\<close>

record response =
  ok :: bool
  status :: nat
  statusText :: string
  body :: "(string list \<times> error option) option"
  text_result :: "error + string"

datatype fetch_result = Rejected error | Resolved response

text \<open>The decimal digits of a number, as a template literal prints it.\<close>

fun digits :: "nat \<Rightarrow> string" where
  "digits n =
     (if n < 10 then [''0123456789'' ! n]
      else digits (n div 10) @ [''0123456789'' ! (n mod 10)])"

definition request_failed :: "response \<Rightarrow> string \<Rightarrow> error" where
  "request_failed r errorText =
     Error (''Request failed: '' @ digits (status r) @ '' '' @ statusText r @ '' - '' @ errorText)"

text \<open>
  The branch of \<^verbatim>\<open>!response.ok || !response.body\<close>: it awaits \<^verbatim>\<open>response.text()\<close>,
  which may reject, and throws.
\<close>

definition refuse :: "response \<Rightarrow> unit comp" where
  "refuse r =
     (case text_result r of
        Inl e \<Rightarrow> throw e
      | Inr errorText \<Rightarrow> throw (request_failed r errorText))"

text \<open>The \<^verbatim>\<open>try\<close> block: the request, the test of the reply, the loop over the reads.\<close>

definition stream_body :: "parser \<Rightarrow> fetch_result \<Rightarrow> unit comp" where
  "stream_body JSON_parse fetched =
     (case fetched of
        Rejected e \<Rightarrow> throw e
      | Resolved r \<Rightarrow>
          (case body r of
             None \<Rightarrow> refuse r
           | Some (vs, ending) \<Rightarrow>
               if \<not> ok r then refuse r
               else (fst (read_loop JSON_parse [] vs),
                     (case ending of None \<Rightarrow> Inr () | Some e \<Rightarrow> Inl e))))"

definition generateChatStream :: "parser \<Rightarrow> fetch_result \<Rightarrow> unit comp" where
  "generateChatStream JSON_parse fetched =
     try_finally
       (try_catch (stream_body JSON_parse fetched)
          (\<lambda>e. seq (call (LogStreamError e)) (call (OnError e))))
       (call OnClose)"

text \<open>
  The span as the specification words it: the opening bracket that comes first in the
  text fixes the closing bracket; the span runs from that opening bracket to the last
  closing bracket, when one comes after the opening bracket.
\<close>

definition is_opener :: "char \<Rightarrow> bool" where
  "is_opener c \<longleftrightarrow> c = CHR ''{'' \<or> c = CHR ''[''"

definition closer_of :: "char \<Rightarrow> char" where
  "closer_of c = (if c = CHR ''{'' then CHR ''}'' else CHR '']'')"

definition up_to_last :: "char \<Rightarrow> string \<Rightarrow> string" where
  "up_to_last c s = rev (dropWhile (\<lambda>x. x \<noteq> c) (rev s))"

definition bracket_span :: "string \<Rightarrow> string option" where
  "bracket_span s =
     (case dropWhile (\<lambda>c. \<not> is_opener c) s of
        [] \<Rightarrow> None
      | opener # rest \<Rightarrow>
          if closer_of opener \<in> set rest
          then Some (up_to_last (closer_of opener) (opener # rest))
          else None)"

text \<open>The right half of \<^const>\<open>trim\<close>.\<close>

definition rtrim :: "string \<Rightarrow> string" where
  "rtrim s = rev (dropWhile is_space (rev s))"

text \<open>The lines of a text that a line feed ends: all the pieces but the last.\<close>

definition complete_lines :: "string \<Rightarrow> string list" where
  "complete_lines s = butlast (split_nl s)"

text \<open>
  The \<^verbatim>\<open>content\<close> of the \<^verbatim>\<open>message\<close> of a record, when the record and its message are
  objects and the message has that field.
\<close>

definition message_content :: "json \<Rightarrow> json option" where
  "message_content j =
     (case j of
        JObj kvs \<Rightarrow>
          (case map_of kvs ''message'' of
             Some (JObj m) \<Rightarrow> map_of m ''content''
           | _ \<Rightarrow> None)
      | _ \<Rightarrow> None)"

fun is_callback :: "event \<Rightarrow> bool" where
  "is_callback (OnChunk c) = True"
| "is_callback (OnError e) = True"
| "is_callback OnClose = True"
| "is_callback (LogParseFailure line) = False"
| "is_callback (LogStreamError e) = False"

fun chunk_of :: "event \<Rightarrow> json option" where
  "chunk_of (OnChunk c) = Some c"
| "chunk_of ev = None"

definition delivered :: "event list \<Rightarrow> json list" where
  "delivered evs = List.map_filter chunk_of evs"

fun from_loop :: "event \<Rightarrow> bool" where
  "from_loop (OnChunk c) = True"
| "from_loop (LogParseFailure line) = True"
| "from_loop ev = False"

text \<open>A parser for the examples: it knows two records and rejects every other line.\<close>

definition sample_parser :: parser where
  \<open>sample_parser t =
     (if t = ''{"message":{"content":"Hi"}}''
      then Some (JObj [(''message'', JObj [(''content'', JStr ''Hi'')])])
      else if t = ''{"done":true}'' then Some (JObj [(''done'', JBool True)])
      else None)\<close>

definition ok_response :: "string list \<times> error option \<Rightarrow> response" where
  "ok_response b =
     \<lparr>ok = True, status = 200, statusText = ''OK'', body = Some b, text_result = Inr []\<rparr>"

section \<open>The chat view (src/components/ChatView.tsx)\<close>

datatype MessageRole = USER | ASSISTANT | SYSTEM

record ChatMessage =
  role :: MessageRole
  content :: string

datatype ChatMode = Mode_standby | Mode_listening | Mode_responding | Mode_speaking

text \<open>
  The effect with the dependencies \<^verbatim>\<open>speechHook.speechState\<close> and \<^verbatim>\<open>mode\<close>: the mode
  it leaves.
\<close>

definition sync_mode :: "SpeechState \<Rightarrow> ChatMode \<Rightarrow> ChatMode" where
  "sync_mode speechState' mode =
     (if speechState' = Speaking \<and> mode \<noteq> Mode_speaking then Mode_speaking
      else if speechState' \<noteq> Speaking \<and> mode = Mode_speaking then Mode_standby
      else mode)"

record chat =
  messages :: "ChatMessage list"
  speechHook :: speech

text \<open>
  The updater of the chunk callback. On an empty list \<^verbatim>\<open>updatedMessages[-1]\<close> is
  \<^verbatim>\<open>undefined\<close> and reading its \<^verbatim>\<open>role\<close> throws (\<open>None\<close>).
\<close>

definition append_chunk :: "string \<Rightarrow> ChatMessage list \<Rightarrow> ChatMessage list option" where
  "append_chunk chunk prev =
     (if prev = [] then None
      else let lastMsgIndex = length prev - 1
           in if role (prev ! lastMsgIndex) = ASSISTANT
              then Some (prev[lastMsgIndex :=
                           (prev ! lastMsgIndex)\<lparr>content := content (prev ! lastMsgIndex) @ chunk\<rparr>])
              else Some prev)"

text \<open>
  The chunk callback: \<^verbatim>\<open>speak\<close>, then the update of the messages. \<^verbatim>\<open>speak\<close> calls
  \<^verbatim>\<open>match\<close> on its argument, which throws for a chunk that is not a string, before
  anything has changed; the streaming loop catches what the callback throws. \<open>seen\<close>
  is the \<^verbatim>\<open>speechState\<close> of the render whose \<^verbatim>\<open>handleUserMessage\<close> started the stream.
\<close>

definition stream_onChunk :: "SpeechState \<Rightarrow> json \<Rightarrow> chat \<Rightarrow> chat" where
  "stream_onChunk seen chunk c =
     (case chunk of
        JStr s \<Rightarrow>
          (case append_chunk s (messages c) of
             None \<Rightarrow> c\<lparr>speechHook := speak seen s (speechHook c)\<rparr>
           | Some updated \<Rightarrow> c\<lparr>speechHook := speak seen s (speechHook c), messages := updated\<rparr>)
      | _ \<Rightarrow> c)"

definition errorMessage :: "error \<Rightarrow> string" where
  "errorMessage e = ''Sorry, I encountered an error: '' @ message e"

text \<open>
  The updater of the error callback. On an empty list the assignment to index -1 adds
  no element.
\<close>

definition replace_last :: "ChatMessage \<Rightarrow> ChatMessage list \<Rightarrow> ChatMessage list" where
  "replace_last m prev = (if prev = [] then prev else prev[length prev - 1 := m])"

definition stream_onError :: "SpeechState \<Rightarrow> error \<Rightarrow> chat \<Rightarrow> chat" where
  "stream_onError seen e c =
     c\<lparr>messages := replace_last \<lparr>role = ASSISTANT, content = errorMessage e\<rparr> (messages c),
       speechHook := speak seen (errorMessage e) (speechHook c)\<rparr>"

text \<open>The callbacks \<^verbatim>\<open>handleUserMessage\<close> passes to \<^verbatim>\<open>generateChatStream\<close>.\<close>

fun deliver :: "SpeechState \<Rightarrow> chat \<Rightarrow> event \<Rightarrow> chat" where
  "deliver seen c (OnChunk chunk) = stream_onChunk seen chunk c"
| "deliver seen c (OnError e) = stream_onError seen e c"
| "deliver seen c OnClose = c"
| "deliver seen c (LogParseFailure line) = c"
| "deliver seen c (LogStreamError e) = c"

text \<open>
  \<^verbatim>\<open>handleUserMessage\<close>: \<open>captured\<close> is the \<^verbatim>\<open>messages\<close> of the render that created the
  function. The first \<^verbatim>\<open>setMessages\<close> stores \<^verbatim>\<open>newMessages\<close>, the second appends the
  empty assistant message; then the stream runs and its callbacks are delivered.
\<close>

definition handleUserMessage ::
    "parser \<Rightarrow> SpeechState \<Rightarrow> ChatMessage list \<Rightarrow> string \<Rightarrow> fetch_result \<Rightarrow> chat \<Rightarrow> chat" where
  "handleUserMessage JSON_parse seen captured text fetched c =
     (let newUserMessage = \<lparr>role = USER, content = text\<rparr>;
          newMessages = captured @ [newUserMessage];
          newAssistantMessage = \<lparr>role = ASSISTANT, content = []\<rparr>;
          c1 = c\<lparr>messages := newMessages @ [newAssistantMessage]\<rparr>
      in foldl (deliver seen) c1 (fst (generateChatStream JSON_parse fetched)))"

lemma dropWhile_delim_no_term:
  "dropWhile is_terminator (dropWhile is_delimiter s) = dropWhile is_delimiter s"
proof (cases "dropWhile is_delimiter s")
  case Nil
  show ?thesis unfolding Nil by simp
next
  case (Cons x xs)
  then have "\<not> is_delimiter x"
    by (metis hd_dropWhile list.sel(1) list.simps(3))
  then have "\<not> is_terminator x" by (simp add: is_delimiter_def)
  with Cons show ?thesis by simp
qed

lemma concat_match: "concat (match_sentences s) = dropWhile is_terminator s"
proof (induction s rule: match_sentences.induct)
  case 1
  then show ?case by simp
next
  case (2 c cs)
  show ?case
  proof (cases "is_terminator c")
    case True
    with 2 show ?thesis by simp
  next
    case False
    let ?r = "dropWhile (\<lambda>x. \<not> is_terminator x) (c # cs)"
    have "concat (match_sentences (c # cs)) =
            takeWhile (\<lambda>x. \<not> is_terminator x) (c # cs) @ takeWhile is_delimiter ?r @ dropWhile is_delimiter ?r"
      using False 2 by (simp add: dropWhile_delim_no_term)
    also have "\<dots> = c # cs"
      by (simp only: takeWhile_dropWhile_id)
    finally show ?thesis using False by simp
  qed
qed

lemma dropWhile_head: "dropWhile P s = x # xs \<Longrightarrow> \<not> P x"
  by (induction s) (auto split: if_splits)

lemma fragment_join:
  assumes b: "b \<noteq> []" "\<And>x. x \<in> set b \<Longrightarrow> \<not> is_terminator x"
    and d: "d = [] \<or> is_terminator (hd d)" "list_all is_delimiter d"
  shows "fragment (b @ d)"
proof -
  have d0: "takeWhile (\<lambda>x. \<not> is_terminator x) d = []"
    using d(1) by (cases d) simp_all
  have d1: "dropWhile (\<lambda>x. \<not> is_terminator x) d = d"
    using d(1) by (cases d) simp_all
  have tw: "takeWhile (\<lambda>x. \<not> is_terminator x) (b @ d) = b"
    using takeWhile_append2 [of b "\<lambda>x. \<not> is_terminator x" d] b(2) d0 by simp
  have dw: "dropWhile (\<lambda>x. \<not> is_terminator x) (b @ d) = d"
    using dropWhile_append2 [of b "\<lambda>x. \<not> is_terminator x" d] b(2) d1 by simp
  show ?thesis unfolding fragment_def tw dw using b(1) d(2) by simp
qed

lemma delims_head:
  "takeWhile is_delimiter (dropWhile (\<lambda>x. \<not> is_terminator x) s) = [] \<or>
   is_terminator (hd (takeWhile is_delimiter (dropWhile (\<lambda>x. \<not> is_terminator x) s)))"
proof (cases "dropWhile (\<lambda>x. \<not> is_terminator x) s")
  case Nil
  show ?thesis unfolding Nil by simp
next
  case (Cons x xs)
  from dropWhile_head [OF Cons] have "is_terminator x" by simp
  then show ?thesis unfolding Cons by (simp add: is_delimiter_def)
qed

lemma takeWhile_all: "list_all P (takeWhile P s)"
  by (induction s) simp_all

lemma takeWhile_not: "x \<in> set (takeWhile (\<lambda>x. \<not> P x) s) \<Longrightarrow> \<not> P x"
  by (induction s) (auto split: if_splits)

lemma fragment_build:
  assumes "\<not> is_terminator c"
  shows "fragment (takeWhile (\<lambda>x. \<not> is_terminator x) (c # cs) @
            takeWhile is_delimiter (dropWhile (\<lambda>x. \<not> is_terminator x) (c # cs)))"
proof -
  define b where "b = takeWhile (\<lambda>x. \<not> is_terminator x) (c # cs)"
  define d where "d = takeWhile is_delimiter (dropWhile (\<lambda>x. \<not> is_terminator x) (c # cs))"
  have 1: "b \<noteq> []"
    using assms by (simp add: b_def)
  have 2: "\<not> is_terminator x" if "x \<in> set b" for x
    using that unfolding b_def by (rule takeWhile_not)
  have 3: "d = [] \<or> is_terminator (hd d)"
    unfolding d_def by (rule delims_head)
  have 4: "list_all is_delimiter d"
    unfolding d_def by (rule takeWhile_all)
  have "fragment (b @ d)"
    using 1 2 3 4 by (rule fragment_join)
  then show ?thesis
    by (simp only: b_def d_def)
qed

lemma fragments_match: "list_all fragment (match_sentences s)"
proof (induction s rule: match_sentences.induct)
  case 1
  then show ?case by simp
next
  case (2 c cs)
  show ?case
  proof (cases "is_terminator c")
    case True
    with 2 show ?thesis by simp
  next
    case False
    from 2(2) [OF False] fragment_build [OF False, of cs] False
    show ?thesis by (simp del: takeWhile.simps dropWhile.simps)
  qed
qed

lemma match_Nil_iff: "match_sentences s = [] \<longleftrightarrow> list_all is_terminator s"
proof (induction s rule: match_sentences.induct)
  case 1
  then show ?case by simp
next
  case (2 c cs)
  then show ?case by (cases "is_terminator c") simp_all
qed

lemma sentences_alt: "sentences s = (if list_all is_terminator s then [s] else match_sentences s)"
  using match_Nil_iff [of s] by (auto simp: sentences_def split: list.splits)

lemma spoken_A: "spoken_fragments ''A. B! C?'' = [''A.'', '' B!'', '' C?'']"
  by (simp add: spoken_fragments_def sentences_def is_terminator_def is_delimiter_def trim_def is_space_def)

lemma match_head: "match_sentences s = m # ms \<Longrightarrow> m \<noteq> [] \<and> \<not> is_terminator (hd m)"
proof (induction s rule: match_sentences.induct)
  case 1
  then show ?case by simp
next
  case (2 c cs)
  then show ?case by (cases "is_terminator c") auto
qed

lemma chained_match: "chained (match_sentences s)"
proof (induction s rule: match_sentences.induct)
  case 1
  then show ?case by simp
next
  case (2 c cs)
  show ?case
  proof (cases "is_terminator c")
    case True
    with 2 show ?thesis by simp
  next
    case False
    define b where "b = takeWhile (\<lambda>x. \<not> is_terminator x) (c # cs)"
    define r where "r = dropWhile (\<lambda>x. \<not> is_terminator x) (c # cs)"
    define d where "d = takeWhile is_delimiter r"
    define r' where "r' = dropWhile is_delimiter r"
    have ms: "match_sentences (c # cs) = (b @ d) # match_sentences r'"
      using False by (simp add: b_def d_def r_def r'_def)
    have ih: "chained (match_sentences r')"
      using 2(2) [OF False] by (simp only: r'_def r_def)
    show ?thesis
    proof (cases "match_sentences r'")
      case Nil
      show ?thesis unfolding ms Nil by simp
    next
      case (Cons n ns)
      from match_head [OF Cons] have n: "n \<noteq> []" "\<not> is_terminator (hd n)" by simp_all
      have "concat (match_sentences r') = dropWhile is_terminator r'"
        by (rule concat_match)
      then have "n @ concat ns = r'"
        using Cons dropWhile_delim_no_term [of r] by (simp add: r'_def)
      then obtain t where r'_eq: "r' = hd n # t"
        using n(1) by (cases n) auto
      then have nd: "\<not> is_delimiter (hd n)"
        using dropWhile_head [of is_delimiter r "hd n" t] by (simp add: r'_def)
      have "r \<noteq> []" using r'_eq by (auto simp: r'_def)
      then obtain x xs where r_eq: "r = x # xs" by (cases r) auto
      then have "is_terminator x"
        using dropWhile_head [of "\<lambda>x. \<not> is_terminator x" "c # cs" x xs] by (simp add: r_def)
      then have "d \<noteq> []" by (simp add: d_def r_eq is_delimiter_def)
      moreover have "dropWhile (\<lambda>x. \<not> is_terminator x) (b @ d) = d"
      proof -
        have "\<And>x. x \<in> set b \<Longrightarrow> \<not> is_terminator x"
          unfolding b_def by (rule takeWhile_not)
        then have "dropWhile (\<lambda>x. \<not> is_terminator x) (b @ d) = dropWhile (\<lambda>x. \<not> is_terminator x) d"
          using dropWhile_append2 [of b "\<lambda>x. \<not> is_terminator x" d] by simp
        also have "\<dots> = d"
          using \<open>is_terminator x\<close> by (simp add: d_def r_eq is_delimiter_def)
        finally show ?thesis .
      qed
      ultimately show ?thesis using ih nd unfolding ms Cons by simp
    qed
  qed
qed

lemma spaces_no_fragments:
  assumes "list_all is_space s"
  shows "spoken_fragments s = []"
proof -
  have sub: "set (concat (match_sentences s)) \<subseteq> set s"
    unfolding concat_match by (rule set_dropWhileD [THEN subsetI])
  have "list_all is_space m" if "m \<in> set (sentences s)" for m
  proof (cases "list_all is_terminator s")
    case True
    with that assms show ?thesis by (simp add: sentences_alt)
  next
    case False
    with that have "m \<in> set (match_sentences s)" by (simp add: sentences_alt)
    then have "set m \<subseteq> set (concat (match_sentences s))" by auto
    with sub assms show ?thesis unfolding list_all_iff by blast
  qed
  moreover have "trim m = []" if "list_all is_space m" for m
  proof -
    have e: "dropWhile is_space m = []" using that by (simp add: list_all_iff)
    show ?thesis unfolding trim_def e by simp
  qed
  ultimately show ?thesis
    by (auto simp: spoken_fragments_def filter_empty_conv)
qed

text \<open>
  C1, as the code has it. \<^verbatim>\<open>speak(text)\<close> appends to the sentence queue, in order and
  untrimmed, the fragments of the text that are not white space only, and then runs
  \<^verbatim>\<open>processSentenceQueue\<close>. The fragments are the matches of the pattern, or the whole
  text when it consists of terminators only. Put together, the matches are the text
  without its leading terminators. Each match is a non-empty run of characters other
  than \<^verbatim>\<open>.\<close>, \<^verbatim>\<open>!\<close>, \<^verbatim>\<open>?\<close> followed by a run of \<^verbatim>\<open>.\<close>, \<^verbatim>\<open>!\<close>, \<^verbatim>\<open>?\<close> and line
  feeds; a match that is followed by another one ends with such a run, and the next
  match starts with a character outside it. So a line feed ends a fragment only after a
  terminator, and the white space after a terminator opens the next fragment:
  \<^verbatim>\<open>speak("A. B! C?")\<close> enqueues \<^verbatim>\<open>"A."\<close>, \<^verbatim>\<open>" B!"\<close>, \<^verbatim>\<open>" C?"\<close>.
\<close>

theorem speak_fragments:
  "speak seen t st = processSentenceQueue seen (enqueue t st) \<and>
   sentenceQueueRef (enqueue t st) = sentenceQueueRef st @ filter (\<lambda>s. trim s \<noteq> []) (sentences t) \<and>
   sentences t = (if list_all is_terminator t then [t] else match_sentences t) \<and>
   concat (match_sentences t) = dropWhile is_terminator t \<and>
   list_all fragment (match_sentences t) \<and>
   chained (match_sentences t) \<and>
   spoken_fragments ''A. B! C?'' = [''A.'', '' B!'', '' C?'']"
proof -
  have "sentenceQueueRef (enqueue t st) = sentenceQueueRef st @ filter (\<lambda>s. trim s \<noteq> []) (sentences t)"
    by (simp add: enqueue_def spoken_fragments_def)
  then show ?thesis
    using sentences_alt [of t] concat_match [of t] fragments_match [of t] chained_match [of t] spoken_A
    by (simp only: speak_def simp_thms)
qed

text \<open>The statements of C1 at the text \<^verbatim>\<open>Hi.. Ok\<close>.\<close>

theorem speak_fragments_witness:
  "sentenceQueueRef (enqueue ''Hi.. Ok'' (initial None)) = [''Hi..'', '' Ok''] \<and>
   sentences ''Hi.. Ok'' = match_sentences ''Hi.. Ok'' \<and>
   concat (match_sentences ''Hi.. Ok'') = ''Hi.. Ok'' \<and>
   list_all fragment (match_sentences ''Hi.. Ok'') \<and>
   chained (match_sentences ''Hi.. Ok'')"
  using speak_fragments [of Idle "''Hi.. Ok''" "initial None"]
  by (simp add: initial_def is_terminator_def is_delimiter_def trim_def is_space_def)

text \<open>
  C1 as the specification states it fails: the fragments of \<^verbatim>\<open>"A. B! C?"\<close> are not
  \<^verbatim>\<open>"A."\<close>, \<^verbatim>\<open>"B!"\<close>, \<^verbatim>\<open>"C?"\<close>, and a line feed alone does not split a text.
\<close>

theorem speak_example_counterexample:
  "sentenceQueueRef (enqueue ''A. B! C?'' (initial None)) \<noteq> [''A.'', ''B!'', ''C?''] \<and>
   sentenceQueueRef (enqueue ''a\<newline>b'' (initial None)) = [''a\<newline>b'']"
  by (simp add: enqueue_def spoken_fragments_def sentences_def initial_def
        is_terminator_def is_delimiter_def trim_def is_space_def)

text \<open>
  C9, as the code has it. \<^verbatim>\<open>speak\<close> of a text that is empty or white space only
  appends nothing to the sentence queue, in every state. When the queue is empty, as it
  is in the idle state the hook starts in, the call changes nothing at all: the queue,
  \<^verbatim>\<open>speechState\<close> and everything else stay as they are.
\<close>

theorem speak_blank_noop:
  assumes "list_all is_space t"
  shows "enqueue t st = st \<and> (sentenceQueueRef st = [] \<longrightarrow> speak seen t st = st)"
proof -
  have e: "enqueue t st = st"
    using spaces_no_fragments [OF assms] by (simp add: enqueue_def)
  show ?thesis
    unfolding speak_def e by (simp add: processSentenceQueue_def)
qed

text \<open>C9 at the empty text and at three spaces, in the initial idle state.\<close>

theorem speak_blank_noop_witness:
  "speak Idle '''' (initial None) = initial None \<and>
   speak Idle ''   '' (initial None) = initial None \<and>
   speechState (initial None) = Idle"
  using speak_blank_noop [of "''''" "initial None" Idle]
    speak_blank_noop [of "''   ''" "initial None" Idle]
  by (simp add: is_space_def initial_def)

text \<open>
  C9 as the specification states it fails in an idle state whose queue is not empty.
  Such a state is reached when a recognition error arrives while a sentence is spoken:
  \<^verbatim>\<open>speak("")\<close> then starts the next sentence and the state becomes speaking.
\<close>

theorem speak_blank_idle_counterexample:
  "speechState (run (initial (Some fresh_recognition))
      [Speak Idle ''A. B.'', StartListening, RecognitionError ''network'']) = Idle \<and>
   sentenceQueueRef (run (initial (Some fresh_recognition))
      [Speak Idle ''A. B.'', StartListening, RecognitionError ''network'']) = ['' B.''] \<and>
   speechState (speak Idle '''' (run (initial (Some fresh_recognition))
      [Speak Idle ''A. B.'', StartListening, RecognitionError ''network''])) = Speaking \<and>
   sentenceQueueRef (speak Idle '''' (run (initial (Some fresh_recognition))
      [Speak Idle ''A. B.'', StartListening, RecognitionError ''network''])) = []"
  by (simp add: run_def initial_def fresh_recognition_def speak_def enqueue_def
        spoken_fragments_def sentences_def processSentenceQueue_def emit_def
        startListening_def stopCurrentRecognition_def truthy_error_def
        recognition_onerror_def installed_handlers_def listening_onerror_def
        is_terminator_def is_delimiter_def trim_def is_space_def)

lemma starts_with_iff: "starts_with s w \<longleftrightarrow> (\<exists>b. s = w @ b)"
  by (induction s w rule: starts_with.induct) auto

lemma includes_str_iff: "includes_str s w \<longleftrightarrow> (\<exists>a b. s = a @ w @ b)"
proof (induction s)
  case Nil
  then show ?case by (cases w) auto
next
  case (Cons c cs)
  show ?case
  proof
    assume "includes_str (c # cs) w"
    then consider "starts_with (c # cs) w" | "includes_str cs w" by auto
    then show "\<exists>a b. c # cs = a @ w @ b"
    proof cases
      case 1
      then obtain b where "c # cs = w @ b" by (auto simp: starts_with_iff)
      then have "c # cs = [] @ w @ b" by simp
      then show ?thesis by blast
    next
      case 2
      with Cons obtain a b where "cs = a @ w @ b" by auto
      then have "c # cs = (c # a) @ w @ b" by simp
      then show ?thesis by blast
    qed
  next
    assume "\<exists>a b. c # cs = a @ w @ b"
    then obtain a b where ab: "c # cs = a @ w @ b" by auto
    show "includes_str (c # cs) w"
    proof (cases a)
      case Nil
      with ab have "starts_with (c # cs) w" by (auto simp: starts_with_iff)
      then show ?thesis by simp
    next
      case (Cons x xs)
      with ab have "cs = xs @ w @ b" by simp
      with Cons.IH have "includes_str cs w" by blast
      then show ?thesis by simp
    qed
  qed
qed

lemma lower_char_idem: "lower_char (lower_char c) = lower_char c"
  by (cases c) (auto simp: is_upper_def)

lemma toLowerCase_idem: "toLowerCase (toLowerCase s) = toLowerCase s"
  by (simp add: toLowerCase_def lower_char_idem)

lemma activations_emit:
  "activations (emit e st) = activations st + (if e = OnActivation then 1 else 0)"
  by (simp add: activations_def emit_def)

lemma wake_emit: "wakeWordDetectedRef (emit e st) = wakeWordDetectedRef st"
  by (simp add: emit_def)

lemma handlers_emit: "installed_handlers (emit e st) = installed_handlers st"
  by (simp add: emit_def installed_handlers_def)

lemma activations_wake: "activations (st\<lparr>wakeWordDetectedRef := b\<rparr>) = activations st"
  by (simp add: activations_def)

lemma handlers_wake: "installed_handlers (st\<lparr>wakeWordDetectedRef := b\<rparr>) = installed_handlers st"
  by (simp add: installed_handlers_def)

lemma standby_onresult_step:
  "activations (standby_onresult w ev st) =
     activations st + (if detects w ev \<and> \<not> wakeWordDetectedRef st then 1 else 0) \<and>
   wakeWordDetectedRef (standby_onresult w ev st) = (wakeWordDetectedRef st \<or> detects w ev) \<and>
   installed_handlers (standby_onresult w ev st) = installed_handlers st"
  by (cases "transcript_at ev (int (length ev) - 1)")
     (auto simp: standby_onresult_def detects_def activations_emit wake_emit handlers_emit
        activations_wake handlers_wake)

lemma standby_results:
  assumes "installed_handlers st = StandbyHandlers w seen"
  shows "activations (run st (map RecognitionResult evs)) =
           activations st + (if \<not> wakeWordDetectedRef st \<and> list_ex (detects w) evs then 1 else 0)"
  using assms
proof (induction evs arbitrary: st)
  case Nil
  then show ?case by (simp add: run_def)
next
  case (Cons ev evs)
  let ?st = "standby_onresult w ev st"
  have step: "perform st (RecognitionResult ev) = ?st"
    using Cons.prems by (simp add: recognition_onresult_def)
  have h: "installed_handlers ?st = StandbyHandlers w seen"
    using Cons.prems standby_onresult_step [of w ev st] by simp
  have "run st (map RecognitionResult (ev # evs)) = run ?st (map RecognitionResult evs)"
    using step by (simp add: run_def)
  then show ?case
    using Cons.IH [OF h] standby_onresult_step [of w ev st] by auto
qed

lemma startStandby_started:
  assumes "\<not> truthy_error (permissionError st)" "recognitionRef st \<noteq> None" "w \<noteq> []"
  shows "installed_handlers (startStandby w st) = StandbyHandlers w (speechState st)"
    and "\<not> wakeWordDetectedRef (startStandby w st)"
    and "activations (startStandby w st) = activations st"
  using assms
  by (auto simp: startStandby_def stopCurrentRecognition_def emit_def installed_handlers_def
        activations_def Let_def split: option.splits)

lemma pending_perform:
  assumes "\<not> starts_standby a"
  shows "pending (perform st a) \<le> pending st"
proof (cases a)
  case (Speak seen t)
  then show ?thesis
    by (auto simp: pending_def activations_def speak_def enqueue_def processSentenceQueue_def
          emit_def split: list.splits)
next
  case (StartStandby w)
  with assms show ?thesis by simp
next
  case StartListening
  then show ?thesis
    by (auto simp: pending_def activations_def startListening_def stopCurrentRecognition_def
          emit_def Let_def split: option.splits)
next
  case (RecognitionResult ev)
  show ?thesis
  proof (cases "installed_handlers st")
    case NoHandlers
    with RecognitionResult show ?thesis by (simp add: recognition_onresult_def)
  next
    case (StandbyHandlers w seen)
    with RecognitionResult standby_onresult_step [of w ev st] show ?thesis
      by (auto simp: recognition_onresult_def pending_def)
  next
    case (ListeningHandlers seen)
    with RecognitionResult show ?thesis
      by (auto simp: recognition_onresult_def listening_onresult_def pending_def activations_def
            emit_def split: option.splits)
  qed
next
  case RecognitionEnd
  then show ?thesis
    by (auto simp: recognition_onend_def standby_onend_def listening_onend_def pending_def
          activations_def emit_def split: handlers.splits)
next
  case (RecognitionError err)
  then show ?thesis
    by (auto simp: recognition_onerror_def standby_onerror_def listening_onerror_def
          stopCurrentRecognition_def pending_def activations_def emit_def
          split: handlers.splits option.splits)
next
  case (UtteranceEnd seen)
  then show ?thesis
    by (auto simp: pending_def activations_def utterance_onend_def processSentenceQueue_def
          emit_def split: list.splits)
next
  case (UtteranceError seen)
  then show ?thesis
    by (auto simp: pending_def activations_def utterance_onerror_def processSentenceQueue_def
          emit_def split: list.splits)
qed

lemma pending_run:
  "list_all (\<lambda>a. \<not> starts_standby a) acts \<Longrightarrow> pending (run st acts) \<le> pending st"
proof (induction acts arbitrary: st)
  case Nil
  then show ?case by (simp add: run_def)
next
  case (Cons a acts)
  then have "pending (run (perform st a) acts) \<le> pending (perform st a)" by simp
  also have "\<dots> \<le> pending st" using Cons.prems by (simp add: pending_perform)
  finally show ?case by (simp add: run_def)
qed

lemma is_space_lower_char: "is_space (lower_char c) = is_space c"
  by (cases c) (auto simp: is_upper_def is_space_def)

lemma dropWhile_keep: "ys \<noteq> [] \<Longrightarrow> \<not> P (hd ys) \<Longrightarrow> dropWhile P (xs @ ys) = dropWhile P xs @ ys"
  by (induction xs) (auto simp: neq_Nil_conv)

lemma trim_inside: "\<exists>l r. s = l @ trim s @ r"
proof -
  define u where "u = dropWhile is_space s"
  have "rev u = takeWhile is_space (rev u) @ dropWhile is_space (rev u)"
    by simp
  then have "u = rev (dropWhile is_space (rev u)) @ rev (takeWhile is_space (rev u))"
    by (metis rev_append rev_rev_ident)
  then have "u = trim s @ rev (takeWhile is_space (rev u))"
    by (simp add: trim_def u_def)
  moreover have "s = takeWhile is_space s @ u"
    by (simp add: u_def)
  ultimately show ?thesis by metis
qed

lemma trim_keeps:
  assumes "v \<noteq> []" and "\<not> is_space (hd v)" and "\<not> is_space (last v)"
  shows "\<exists>a' b'. trim (a @ v @ b) = a' @ v @ b'"
proof -
  have l: "dropWhile is_space (a @ v @ b) = dropWhile is_space a @ v @ b"
    using dropWhile_keep [of "v @ b" is_space a] assms by simp
  have "rev v @ rev (dropWhile is_space a) \<noteq> []"
    and "\<not> is_space (hd (rev v @ rev (dropWhile is_space a)))"
    using assms by (simp_all add: hd_rev)
  then have "dropWhile is_space (rev b @ rev v @ rev (dropWhile is_space a)) =
          dropWhile is_space (rev b) @ rev v @ rev (dropWhile is_space a)"
    by (rule dropWhile_keep)
  then have "trim (a @ v @ b) = dropWhile is_space a @ v @ rev (dropWhile is_space (rev b))"
    unfolding trim_def l by simp
  then show ?thesis by blast
qed

lemma includes_trim:
  assumes "v \<noteq> []" and "\<not> is_space (hd v)" and "\<not> is_space (last v)"
  shows "includes_str (trim s) v = includes_str s v"
proof
  assume "includes_str (trim s) v"
  then obtain a b where "trim s = a @ v @ b" by (auto simp: includes_str_iff)
  moreover obtain l r where "s = l @ trim s @ r" using trim_inside by blast
  ultimately have "s = (l @ a) @ v @ (b @ r)" by simp
  then show "includes_str s v" unfolding includes_str_iff by blast
next
  assume "includes_str s v"
  then obtain a b where "s = a @ v @ b" by (auto simp: includes_str_iff)
  with trim_keeps [OF assms, of a b] show "includes_str (trim s) v"
    unfolding includes_str_iff by simp
qed

lemma wake_match_plain:
  assumes "w \<noteq> []" and "\<not> is_space (hd w)" and "\<not> is_space (last w)"
  shows "wake_match w seg = includes_str (toLowerCase seg) (toLowerCase w)"
proof -
  have "toLowerCase w \<noteq> []" using assms(1) by (simp add: toLowerCase_def)
  moreover have "\<not> is_space (hd (toLowerCase w))"
    using assms(1,2) by (simp add: toLowerCase_def hd_map is_space_lower_char)
  moreover have "\<not> is_space (last (toLowerCase w))"
    using assms(1,3) by (simp add: toLowerCase_def last_map is_space_lower_char)
  ultimately show ?thesis
    unfolding wake_match_def by (rule includes_trim)
qed

lemma detects_iff:
  "detects w ev \<longleftrightarrow>
     (\<exists>segment a b. transcript_at ev (int (length ev) - 1) = Some segment \<and>
        trim (toLowerCase segment) = a @ toLowerCase w @ b)"
  by (cases "transcript_at ev (int (length ev) - 1)")
     (simp_all add: detects_def wake_match_def includes_str_iff)

lemma lower_char_code:
  "(of_char (lower_char c) :: nat) = (if is_upper c then of_char c + 32 else of_char c)"
  by (cases c) (auto simp: is_upper_def)

text \<open>
  C5, as the code has it. A standby session starts when \<^verbatim>\<open>startStandby\<close> passes its
  guards. Over any sequence of result events of the session the activation callback is
  called once if some event is detected and never otherwise, so the first detected event
  calls it and every later event calls nothing. No sequence of other calls and events
  that does not start a new standby session adds more than one activation. An event is
  detected when the transcript of its last result, lowercased and then trimmed, contains
  the lowercased trigger word, which is not trimmed. For a trigger word that neither
  starts nor ends with white space this is containment in the lowercased transcript
  itself. The test depends on the trigger word and the transcript through their
  lowercased forms only, where lowercasing moves the upper case letters up by 32 and
  keeps every other character.
\<close>

theorem wake_word_once:
  assumes "\<not> truthy_error (permissionError st)" and "recognitionRef st \<noteq> None" and "w \<noteq> []"
  shows "activations (run (startStandby w st) (map RecognitionResult evs)) =
           activations st + (if list_ex (detects w) evs then 1 else 0) \<and>
         (list_all (\<lambda>a. \<not> starts_standby a) acts \<longrightarrow>
            activations (run (startStandby w st) acts) \<le> activations st + 1) \<and>
         (detects w ev \<longleftrightarrow>
            (\<exists>segment a b. transcript_at ev (int (length ev) - 1) = Some segment \<and>
               trim (toLowerCase segment) = a @ toLowerCase w @ b)) \<and>
         (\<not> is_space (hd w) \<and> \<not> is_space (last w) \<longrightarrow>
            wake_match w segment = includes_str (toLowerCase segment) (toLowerCase w)) \<and>
         (toLowerCase w' = toLowerCase w \<and> toLowerCase segment' = toLowerCase segment \<longrightarrow>
            wake_match w' segment' = wake_match w segment) \<and>
         (of_char (lower_char c) :: nat) = (if is_upper c then of_char c + 32 else of_char c)"
proof -
  note s = startStandby_started [OF assms]
  have 1: "activations (run (startStandby w st) (map RecognitionResult evs)) =
             activations st + (if list_ex (detects w) evs then 1 else 0)"
    using standby_results [OF s(1), of evs] s(2,3) by simp
  have 2: "activations (run (startStandby w st) acts) \<le> activations st + 1"
    if "list_all (\<lambda>a. \<not> starts_standby a) acts"
  proof -
    have "activations (run (startStandby w st) acts) \<le> pending (run (startStandby w st) acts)"
      by (simp add: pending_def)
    also have "\<dots> \<le> pending (startStandby w st)"
      using that by (rule pending_run)
    also have "\<dots> = activations st + 1"
      using s(2,3) by (simp add: pending_def)
    finally show ?thesis .
  qed
  have 4: "wake_match w segment = includes_str (toLowerCase segment) (toLowerCase w)"
    if "\<not> is_space (hd w) \<and> \<not> is_space (last w)"
    using that assms(3) by (simp add: wake_match_plain)
  have 5: "wake_match w' segment' = wake_match w segment"
    if "toLowerCase w' = toLowerCase w \<and> toLowerCase segment' = toLowerCase segment"
    using that by (simp add: wake_match_def)
  show ?thesis
    using 1 2 detects_iff [of w ev] 4 5 lower_char_code [of c] by blast
qed

text \<open>
  C5 at the trigger word \<^verbatim>\<open>hey\<close>: a session whose last two results contain it in other
  cases, a session none of whose results is detected, a session with an end event between
  two detected results, and a transcript with white space around it.
\<close>

theorem wake_word_once_witness:
  "activations (run (startStandby ''hey'' (initial (Some fresh_recognition)))
      (map RecognitionResult [[[''no'']], [[''no''], [''Hey you'']], [[''oh HEY'']]])) = 1 \<and>
   activations (run (startStandby ''hey'' (initial (Some fresh_recognition)))
      (map RecognitionResult [[[''no'']], [[''Hey''], [''he y'']]])) = 0 \<and>
   activations (run (startStandby ''hey'' (initial (Some fresh_recognition)))
      [RecognitionResult [[''HEY'']], RecognitionEnd, RecognitionResult [[''hey'']]]) \<le> 1 \<and>
   detects ''hey'' [[''no''], [''Hey you'']] \<and>
   \<not> detects ''hey'' [[''Hey''], [''he y'']] \<and>
   wake_match ''Hey'' ''  oh HEY  '' \<and>
   includes_str (toLowerCase ''  oh HEY  '') (toLowerCase ''Hey'') \<and>
   lower_char CHR ''H'' = CHR ''h''"
proof -
  have 1: "\<not> truthy_error (permissionError (initial (Some fresh_recognition)))"
    by (simp add: initial_def truthy_error_def)
  have 2: "recognitionRef (initial (Some fresh_recognition)) \<noteq> None"
    by (simp add: initial_def)
  have 3: "''hey'' \<noteq> []" by simp
  have 4: "''Hey'' \<noteq> []" by simp
  show ?thesis
    using wake_word_once [OF 1 2 3,
        of "[[[''no'']], [[''no''], [''Hey you'']], [[''oh HEY'']]]"
           "[RecognitionResult [[''HEY'']], RecognitionEnd, RecognitionResult [[''hey'']]]"
           "[[''no''], [''Hey you'']]"]
      wake_word_once [OF 1 2 3, of "[[[''no'']], [[''Hey''], [''he y'']]]"]
      wake_word_once [OF 1 2 4, of _ _ _ "''  oh HEY  ''"]
    by (simp add: initial_def activations_def detects_def transcript_at_def wake_match_def
          toLowerCase_def is_upper_def trim_def is_space_def)
qed

text \<open>
  C5 as the specification states it fails for a trigger word that ends with a space:
  both lowercased transcripts contain it, the trimmed ones do not, and the session that
  receives them calls the activation callback not once.
\<close>

theorem wake_word_trim_counterexample:
  "installed_handlers (startStandby ''hey '' (initial (Some fresh_recognition))) =
     StandbyHandlers ''hey '' Idle \<and>
   includes_str (toLowerCase ''oh hey '') (toLowerCase ''hey '') \<and>
   includes_str (toLowerCase ''Hey '') (toLowerCase ''hey '') \<and>
   activations (run (startStandby ''hey '' (initial (Some fresh_recognition)))
      (map RecognitionResult [[[''oh hey '']], [[''Hey '']]])) = 0"
  by (simp add: run_def initial_def fresh_recognition_def startStandby_def
        stopCurrentRecognition_def truthy_error_def emit_def installed_handlers_def
        recognition_onresult_def standby_onresult_def transcript_at_def wake_match_def
        activations_def toLowerCase_def is_upper_def trim_def is_space_def)

lemma permission_perform:
  assumes "truthy_error (permissionError st)"
  shows "truthy_error (permissionError (perform st a))"
proof (cases a)
  case (Speak seen t)
  with assms show ?thesis
    by (auto simp: speak_def enqueue_def processSentenceQueue_def emit_def split: list.splits)
next
  case (StartStandby w)
  with assms show ?thesis by (simp add: startStandby_def)
next
  case StartListening
  with assms show ?thesis by (simp add: startListening_def)
next
  case (RecognitionResult ev)
  with assms show ?thesis
    by (auto simp: recognition_onresult_def standby_onresult_def listening_onresult_def emit_def
          split: handlers.splits option.splits)
next
  case RecognitionEnd
  with assms show ?thesis
    by (auto simp: recognition_onend_def standby_onend_def listening_onend_def emit_def
          split: handlers.splits)
next
  case (RecognitionError err)
  with assms show ?thesis
    by (auto simp: recognition_onerror_def standby_onerror_def listening_onerror_def
          stopCurrentRecognition_def emit_def truthy_error_def permission_denied_def
          split: handlers.splits option.splits)
next
  case (UtteranceEnd seen)
  with assms show ?thesis
    by (auto simp: utterance_onend_def processSentenceQueue_def emit_def split: list.splits)
next
  case (UtteranceError seen)
  with assms show ?thesis
    by (auto simp: utterance_onerror_def processSentenceQueue_def emit_def split: list.splits)
qed

lemma permission_run:
  "truthy_error (permissionError st) \<Longrightarrow> truthy_error (permissionError (run st acts))"
proof (induction acts arbitrary: st)
  case Nil
  then show ?case by (simp add: run_def)
next
  case (Cons a acts)
  from Cons.IH [OF permission_perform [OF Cons.prems, of a]]
  show ?case by (simp add: run_def)
qed

lemma not_allowed_recorded:
  "installed_handlers st \<noteq> NoHandlers \<Longrightarrow>
   truthy_error (permissionError (recognition_onerror ''not-allowed'' st))"
  by (auto simp: recognition_onerror_def standby_onerror_def listening_onerror_def
        truthy_error_def permission_denied_def split: handlers.splits)

text \<open>
  C6. Once \<^verbatim>\<open>permissionError\<close> holds a message, it still holds one after every sequence
  of calls and events, and \<^verbatim>\<open>startStandby\<close> and \<^verbatim>\<open>startListening\<close> then return the
  state as it is: no call of the platform, no change. A \<^verbatim>\<open>not-allowed\<close> error that
  reaches an installed handler records the message.
\<close>

theorem permission_error_sticky:
  assumes "truthy_error (permissionError st)"
  shows "startStandby w (run st acts) = run st acts \<and>
         startListening (run st acts) = run st acts \<and>
         truthy_error (permissionError (run st acts)) \<and>
         (installed_handlers st' \<noteq> NoHandlers \<longrightarrow>
            truthy_error (permissionError (recognition_onerror ''not-allowed'' st')))"
  using permission_run [OF assms, of acts] not_allowed_recorded [of st']
  by (simp add: startStandby_def startListening_def)

text \<open>
  C6 after a \<^verbatim>\<open>not-allowed\<close> error of a listening session, followed by an end event and
  a spoken sentence.
\<close>

theorem permission_error_sticky_witness:
  "permissionError (run (initial (Some fresh_recognition))
      [StartListening, RecognitionError ''not-allowed'']) = Some permission_denied \<and>
   startStandby ''hey''
     (run (run (initial (Some fresh_recognition)) [StartListening, RecognitionError ''not-allowed''])
        [RecognitionEnd, Speak Idle ''Hi.'', UtteranceEnd Idle]) =
     run (run (initial (Some fresh_recognition)) [StartListening, RecognitionError ''not-allowed''])
        [RecognitionEnd, Speak Idle ''Hi.'', UtteranceEnd Idle] \<and>
   startListening
     (run (run (initial (Some fresh_recognition)) [StartListening, RecognitionError ''not-allowed''])
        [RecognitionEnd, Speak Idle ''Hi.'', UtteranceEnd Idle]) =
     run (run (initial (Some fresh_recognition)) [StartListening, RecognitionError ''not-allowed''])
        [RecognitionEnd, Speak Idle ''Hi.'', UtteranceEnd Idle]"
proof -
  have p: "permissionError (run (initial (Some fresh_recognition))
      [StartListening, RecognitionError ''not-allowed'']) = Some permission_denied"
    by (simp add: run_def initial_def fresh_recognition_def startListening_def
          stopCurrentRecognition_def truthy_error_def emit_def recognition_onerror_def
          installed_handlers_def listening_onerror_def)
  have t: "truthy_error (permissionError (run (initial (Some fresh_recognition))
      [StartListening, RecognitionError ''not-allowed'']))"
    unfolding p by (simp add: truthy_error_def permission_denied_def)
  show ?thesis
    using p permission_error_sticky [OF t, of "''hey''"
        "[RecognitionEnd, Speak Idle ''Hi.'', UtteranceEnd Idle]"]
    by simp
qed

lemma takeWhile_neq_split: "c \<notin> set a \<Longrightarrow> takeWhile (\<lambda>x. x \<noteq> c) (a @ c # b) = a"
  by (induction a) auto

lemma dropWhile_neq_split: "c \<notin> set a \<Longrightarrow> dropWhile (\<lambda>x. x \<noteq> c) (a @ c # b) = c # b"
  by (induction a) auto

lemma indexOf_first: "c \<notin> set a \<Longrightarrow> indexOf (a @ c # b) c = int (length a)"
  by (simp add: indexOf_def takeWhile_neq_split)

lemma indexOf_absent: "c \<notin> set s \<Longrightarrow> indexOf s c = - 1"
  by (simp add: indexOf_def)

lemma lastIndexOf_last: "c \<notin> set b \<Longrightarrow> lastIndexOf (a @ c # b) c = int (length a)"
proof -
  assume "c \<notin> set b"
  then have "takeWhile (\<lambda>x. x \<noteq> c) (rev b @ c # rev a) = rev b"
    using takeWhile_neq_split [of c "rev b" "rev a"] by simp
  then show ?thesis by (simp add: lastIndexOf_def)
qed

lemma lastIndexOf_absent: "c \<notin> set s \<Longrightarrow> lastIndexOf s c = - 1"
  by (simp add: lastIndexOf_def)

lemma substring_middle:
  "substring (a @ m @ b) (int (length a)) (int (length a) + int (length m)) = m"
  by (simp add: substring_def Let_def min_def max_def)

lemma up_to_last_split: "c \<notin> set b \<Longrightarrow> up_to_last c (a @ c # b) = a @ [c]"
  using dropWhile_neq_split [of c "rev b" "rev a"] by (simp add: up_to_last_def)

text \<open>The span of the index computation, for an opening bracket q at its first position.\<close>

lemma span_by_index:
  assumes s: "s = a @ q # b" and oa: "q \<notin> set a" and oc: "q \<noteq> c"
  shows "(if lastIndexOf s c > indexOf s q
          then Some (substring s (indexOf s q) (lastIndexOf s c + 1)) else None) =
         (if c \<in> set b then Some (up_to_last c (q # b)) else None)"
proof (cases "c \<in> set b")
  case True
  then obtain b1 b2 where b: "b = b1 @ c # b2" and c2: "c \<notin> set b2"
    using split_list_last [of c b] by blast
  have i: "indexOf s q = int (length a)"
    unfolding s using oa by (rule indexOf_first)
  have "s = (a @ q # b1) @ c # b2" by (simp add: s b)
  then have l: "lastIndexOf s c = int (length (a @ q # b1))"
    using lastIndexOf_last [OF c2, of "a @ q # b1"] by simp
  have "substring s (int (length a)) (int (length a) + int (length (q # b1 @ [c]))) = q # b1 @ [c]"
    using substring_middle [of a "q # b1 @ [c]" b2] by (simp add: s b)
  then have sub: "substring s (indexOf s q) (lastIndexOf s c + 1) = q # b1 @ [c]"
    by (simp add: i l add.commute add.left_commute)
  have "up_to_last c (q # b) = q # b1 @ [c]"
    using up_to_last_split [OF c2, of "q # b1"] by (simp add: b)
  with sub True i l show ?thesis by simp
next
  case False
  have i: "indexOf s q = int (length a)"
    unfolding s using oa by (rule indexOf_first)
  have "lastIndexOf s c \<le> indexOf s q"
  proof (cases "c \<in> set a")
    case True
    then obtain a1 a2 where a: "a = a1 @ c # a2" and c2: "c \<notin> set a2"
      using split_list_last [of c a] by blast
    have "s = a1 @ c # (a2 @ q # b)" by (simp add: s a)
    moreover have "c \<notin> set (a2 @ q # b)" using c2 False oc by simp
    ultimately have "lastIndexOf s c = int (length a1)"
      using lastIndexOf_last [of c "a2 @ q # b" a1] by simp
    then show ?thesis by (simp add: i a)
  next
    case F: False
    then have "c \<notin> set s" using False oc by (simp add: s)
    then show ?thesis by (simp add: lastIndexOf_absent i)
  qed
  with False show ?thesis by simp
qed

lemma indexOf_after:
  assumes "x \<notin> set a" and "x \<noteq> q"
  shows "indexOf (a @ q # b) x = - 1 \<or> indexOf (a @ q # b) x > int (length a)"
proof (cases "x \<in> set b")
  case True
  then obtain b1 b2 where b: "b = b1 @ x # b2" and x1: "x \<notin> set b1"
    using split_list_first [of x b] by blast
  have "x \<notin> set (a @ q # b1)" using assms x1 by simp
  then have "indexOf ((a @ q # b1) @ x # b2) x = int (length (a @ q # b1))"
    by (rule indexOf_first)
  then show ?thesis by (simp add: b)
next
  case False
  then have "x \<notin> set (a @ q # b)" using assms by simp
  then show ?thesis by (simp add: indexOf_absent)
qed

lemma extractJson_trim: "extractJson s = bracket_span (trim s)"
proof -
  define t where "t = trim s"
  have "extractJson s = bracket_span t"
  proof (cases "dropWhile (\<lambda>c. \<not> is_opener c) t")
  case Nil
  then have "\<forall>x\<in>set t. \<not> is_opener x" by simp
  then have "CHR ''{'' \<notin> set t" "CHR ''['' \<notin> set t"
    by (auto simp: is_opener_def)
  then show ?thesis
    unfolding bracket_span_def Nil by (simp add: extractJson_def Let_def t_def [symmetric] indexOf_absent)
next
  case (Cons q b)
  define a where "a = takeWhile (\<lambda>c. \<not> is_opener c) t"
  have t: "t = a @ q # b"
    using takeWhile_dropWhile_id [of "\<lambda>c. \<not> is_opener c" t] by (simp add: a_def Cons)
  have na: "\<not> is_opener x" if "x \<in> set a" for x
    using that set_takeWhileD [of x "\<lambda>c. \<not> is_opener c" t] by (simp add: a_def)
  have q: "is_opener q"
    using hd_dropWhile [of "\<lambda>c. \<not> is_opener c" t] by (simp add: Cons)
  have brace_a: "CHR ''{'' \<notin> set a" and bracket_a: "CHR ''['' \<notin> set a"
    using na by (auto simp: is_opener_def)
  show ?thesis
  proof (cases "q = CHR ''{''")
    case True
    have fb: "indexOf t CHR ''{'' = int (length a)"
      unfolding t True using brace_a by (rule indexOf_first)
    have fk: "indexOf t CHR ''['' = - 1 \<or> indexOf t CHR ''['' > int (length a)"
      unfolding t using bracket_a True indexOf_after [of "CHR ''[''" a q b] by simp
    have "extractJson s =
            (if lastIndexOf t CHR ''}'' > indexOf t CHR ''{''
             then Some (substring t (indexOf t CHR ''{'') (lastIndexOf t CHR ''}'' + 1)) else None)"
      using fk by (auto simp: extractJson_def Let_def t_def [symmetric] fb)
    also have "\<dots> = (if CHR ''}'' \<in> set b then Some (up_to_last CHR ''}'' (CHR ''{'' # b)) else None)"
      using span_by_index [of t a "CHR ''{''" b "CHR ''}''"] t True brace_a by simp
    also have "\<dots> = bracket_span t"
      unfolding bracket_span_def Cons by (simp add: True closer_of_def)
    finally show ?thesis .
  next
    case False
    with q have qk: "q = CHR ''[''" by (simp add: is_opener_def)
    have fk: "indexOf t CHR ''['' = int (length a)"
      unfolding t qk using bracket_a by (rule indexOf_first)
    have fb: "indexOf t CHR ''{'' = - 1 \<or> indexOf t CHR ''{'' > int (length a)"
      unfolding t using brace_a qk indexOf_after [of "CHR ''{''" a q b] by simp
    have "extractJson s =
            (if lastIndexOf t CHR '']'' > indexOf t CHR ''[''
             then Some (substring t (indexOf t CHR ''['') (lastIndexOf t CHR '']'' + 1)) else None)"
      using fb by (auto simp: extractJson_def Let_def t_def [symmetric] fk)
    also have "\<dots> = (if CHR '']'' \<in> set b then Some (up_to_last CHR '']'' (CHR ''['' # b)) else None)"
      using span_by_index [of t a "CHR ''[''" b "CHR '']''"] t qk bracket_a by simp
    also have "\<dots> = bracket_span t"
      unfolding bracket_span_def Cons by (simp add: qk closer_of_def)
    finally show ?thesis .
  qed
qed
  then show ?thesis by (simp add: t_def)
qed

lemma trim_rtrim: "trim s = rtrim (dropWhile is_space s)"
  by (simp add: trim_def rtrim_def)

lemma dropWhile_weaker:
  "(\<And>x. P x \<Longrightarrow> Q x) \<Longrightarrow> dropWhile Q (dropWhile P xs) = dropWhile Q xs"
  by (induction xs) auto

lemma rtrim_Cons: "rtrim (c # cs) = (if rtrim cs = [] \<and> is_space c then [] else c # rtrim cs)"
proof -
  have "dropWhile is_space (rev cs @ [c]) =
          (if \<forall>x\<in>set (rev cs). is_space x then dropWhile is_space [c]
           else dropWhile is_space (rev cs) @ [c])"
    by (simp add: dropWhile_append)
  then show ?thesis by (auto simp: rtrim_def)
qed

lemma rtrim_Nil: "rtrim [] = []"
  by (simp add: rtrim_def)

lemma space_not_opener: "is_space x \<Longrightarrow> \<not> is_opener x"
  by (auto simp: is_space_def is_opener_def)

lemma space_not_closer: "is_space x \<Longrightarrow> x \<noteq> closer_of q"
  by (auto simp: is_space_def closer_of_def)

lemma rtrim_openers:
  "dropWhile (\<lambda>c. \<not> is_opener c) (rtrim u) = rtrim (dropWhile (\<lambda>c. \<not> is_opener c) u)"
proof (induction u)
  case Nil
  then show ?case by (simp add: rtrim_Nil)
next
  case (Cons c cs)
  show ?case
  proof (cases "is_opener c")
    case True
    then have "\<not> is_space c" using space_not_opener by blast
    with True show ?thesis by (simp add: rtrim_Cons)
  next
    case False
    with Cons show ?thesis by (auto simp: rtrim_Cons rtrim_Nil)
  qed
qed

lemma rtrim_member: "\<not> is_space c \<Longrightarrow> c \<in> set (rtrim b) \<longleftrightarrow> c \<in> set b"
  by (induction b) (auto simp: rtrim_Cons rtrim_Nil)

lemma up_to_last_rtrim: "\<not> is_space c \<Longrightarrow> up_to_last c (rtrim s) = up_to_last c s"
proof -
  assume c: "\<not> is_space c"
  have "dropWhile (\<lambda>x. x \<noteq> c) (dropWhile is_space (rev s)) = dropWhile (\<lambda>x. x \<noteq> c) (rev s)"
    using c by (intro dropWhile_weaker) auto
  then show ?thesis by (simp add: up_to_last_def rtrim_def)
qed

lemma bracket_span_rtrim: "bracket_span (rtrim u) = bracket_span u"
proof (cases "dropWhile (\<lambda>c. \<not> is_opener c) u")
  case Nil
  show ?thesis
    unfolding bracket_span_def rtrim_openers Nil by (simp add: rtrim_Nil)
next
  case (Cons q b)
  have q: "is_opener q"
    using hd_dropWhile [of "\<lambda>c. \<not> is_opener c" u] by (simp add: Cons)
  then have nq: "\<not> is_space q" using space_not_opener by blast
  have nc: "\<not> is_space (closer_of q)" using space_not_closer by blast
  have r: "rtrim (q # b) = q # rtrim b"
    using nq by (simp add: rtrim_Cons)
  have "up_to_last (closer_of q) (q # rtrim b) = up_to_last (closer_of q) (q # b)"
    using up_to_last_rtrim [OF nc, of "q # b"] by (simp add: r)
  then show ?thesis
    unfolding bracket_span_def rtrim_openers Cons r
    using rtrim_member [OF nc, of b] by simp
qed

lemma bracket_span_trim: "bracket_span (trim s) = bracket_span s"
proof -
  have "dropWhile (\<lambda>c. \<not> is_opener c) (dropWhile is_space s) = dropWhile (\<lambda>c. \<not> is_opener c) s"
    using space_not_opener by (intro dropWhile_weaker) auto
  then have "bracket_span (dropWhile is_space s) = bracket_span s"
    by (simp add: bracket_span_def)
  then show ?thesis by (simp add: trim_rtrim bracket_span_rtrim)
qed

lemma errors_distinct: "ExtractionError a \<noteq> ParseError b"
  by (simp add: ExtractionError_def ParseError_def)

lemma bracket_span_nonempty: "bracket_span s \<noteq> Some []"
  by (auto simp: bracket_span_def up_to_last_def split: list.splits)

lemma extractJson_examples:
  \<open>extractJson ''Here: {"a":1,"b":[2,3]} thanks'' = Some ''{"a":1,"b":[2,3]}'' \<and>
   extractJson ''no brackets here'' = None \<and>
   extractJson ''[1,2} broken'' = None\<close>
  by (simp add: extractJson_def trim_def is_space_def indexOf_def lastIndexOf_def substring_def)

text \<open>
  C2. \<^verbatim>\<open>extractJson\<close> returns the span from the opening bracket that comes first in the
  text to the last closing bracket of its kind, when one comes after it, and nothing
  otherwise; trimming the text first changes nothing. \<^verbatim>\<open>generateJson\<close> fails with
  the extraction error when there is no span, with the parse error when the span does
  not parse, and returns the parsed value otherwise; the two errors differ. The three
  examples of the specification come out as it says.
\<close>

theorem structured_extraction:
  \<open>extractJson s = bracket_span s \<and>
   generateJson JSON_parse (Inr s) =
     (case bracket_span s of
        None \<Rightarrow> Inl (ExtractionError s)
      | Some found \<Rightarrow>
          (case JSON_parse found of
             None \<Rightarrow> Inl (ParseError s)
           | Some v \<Rightarrow> Inr v)) \<and>
   ExtractionError a \<noteq> ParseError b \<and>
   extractJson ''Here: {"a":1,"b":[2,3]} thanks'' = Some ''{"a":1,"b":[2,3]}'' \<and>
   extractJson ''no brackets here'' = None \<and>
   extractJson ''[1,2} broken'' = None\<close>
proof -
  have e: "extractJson s = bracket_span s"
    by (simp add: extractJson_trim bracket_span_trim)
  have "generateJson JSON_parse (Inr s) =
     (case bracket_span s of
        None \<Rightarrow> Inl (ExtractionError s)
      | Some found \<Rightarrow>
          (case JSON_parse found of
             None \<Rightarrow> Inl (ParseError s)
           | Some v \<Rightarrow> Inr v))"
    using bracket_span_nonempty [of s]
    by (cases "bracket_span s") (simp_all add: generateJson_def e)
  with e errors_distinct [of a b] extractJson_examples show ?thesis
    by (simp only: simp_thms)
qed

text \<open>
  C2 with a parser that accepts one object: a reply that wraps it, a span that does not
  parse, a closing bracket before the opening one, and an array with a later bracket.
\<close>

theorem structured_extraction_witness:
  \<open>generateJson (\<lambda>t. if t = ''{"a":1}'' then Some (JObj [(''a'', JNum 1)]) else None)
      (Inr ''Sure: {"a":1} done'') = Inr (JObj [(''a'', JNum 1)]) \<and>
   generateJson (\<lambda>t. if t = ''{"a":1}'' then Some (JObj [(''a'', JNum 1)]) else None)
      (Inr ''{nope}'') = Inl (ParseError ''{nope}'') \<and>
   generateJson (\<lambda>t. if t = ''{"a":1}'' then Some (JObj [(''a'', JNum 1)]) else None)
      (Inr ''} {'') = Inl (ExtractionError ''} {'') \<and>
   extractJson ''  [1, {2}] ]x '' = Some ''[1, {2}] ]''\<close>
  using structured_extraction
      [of \<open>''Sure: {"a":1} done''\<close>
          \<open>\<lambda>t. if t = ''{"a":1}'' then Some (JObj [(''a'', JNum 1)]) else None\<close>]
    structured_extraction
      [of \<open>''{nope}''\<close>
          \<open>\<lambda>t. if t = ''{"a":1}'' then Some (JObj [(''a'', JNum 1)]) else None\<close>]
    structured_extraction
      [of \<open>''} {''\<close>
          \<open>\<lambda>t. if t = ''{"a":1}'' then Some (JObj [(''a'', JNum 1)]) else None\<close>]
    structured_extraction [of \<open>''  [1, {2}] ]x ''\<close>]
  by (simp add: bracket_span_def is_opener_def closer_of_def up_to_last_def)

lemma split_nl_nonempty: "split_nl s \<noteq> []"
  by (induction s) (auto split: list.splits)

lemma split_nl_plain: "CHR 0x0A \<notin> set s \<Longrightarrow> split_nl s = [s]"
  by (induction s) auto

lemma split_nl_Cons:
  "split_nl (c # cs) =
     (if c = CHR 0x0A then [] # split_nl cs else (c # hd (split_nl cs)) # tl (split_nl cs))"
  using split_nl_nonempty [of cs] by (cases "split_nl cs") auto

lemma split_nl_append:
  "split_nl (a @ b) = butlast (split_nl a) @ split_nl (last (split_nl a) @ b)"
proof (induction a)
  case Nil
  then show ?case by simp
next
  case (Cons c cs)
  obtain l ls where S: "split_nl cs = l # ls"
    using split_nl_nonempty [of cs] by (cases "split_nl cs") auto
  show ?case
  proof (cases "c = CHR 0x0A")
    case True
    have "split_nl ((c # cs) @ b) = [] # split_nl (cs @ b)"
      using True by (simp add: split_nl_Cons del: split_nl.simps)
    also have "\<dots> = [] # butlast (split_nl cs) @ split_nl (last (split_nl cs) @ b)"
      using Cons by simp
    also have "\<dots> = butlast (split_nl (c # cs)) @ split_nl (last (split_nl (c # cs)) @ b)"
      using True S by (simp add: split_nl_Cons del: split_nl.simps)
    finally show ?thesis .
  next
    case False
    have L: "split_nl ((c # cs) @ b) = (c # hd (split_nl (cs @ b))) # tl (split_nl (cs @ b))"
      using False by (simp add: split_nl_Cons del: split_nl.simps)
    have R: "split_nl (c # cs) = (c # l) # ls"
      using False S by (simp add: split_nl_Cons del: split_nl.simps)
    show ?thesis
    proof (cases ls)
      case Nil
      have "split_nl (cs @ b) = split_nl (l @ b)"
        using Cons S Nil by simp
      then have "split_nl ((c # cs) @ b) = split_nl ((c # l) @ b)"
        using False L by (simp add: split_nl_Cons del: split_nl.simps)
      then show ?thesis
        unfolding R Nil by simp
    next
      case inner: (Cons m ms)
      have "split_nl (cs @ b) = l # butlast ls @ split_nl (last ls @ b)"
        using Cons S inner by simp
      then have "split_nl ((c # cs) @ b) = (c # l) # butlast ls @ split_nl (last ls @ b)"
        using L by simp
      then show ?thesis
        unfolding R using inner by simp
    qed
  qed
qed

lemma last_split_nl: "CHR 0x0A \<notin> set (last (split_nl s))"
proof (induction s)
  case Nil
  then show ?case by simp
next
  case (Cons c cs)
  obtain l ls where S: "split_nl cs = l # ls"
    using split_nl_nonempty [of cs] by (cases "split_nl cs") auto
  with Cons show ?case
    by (cases ls) (auto simp: split_nl_Cons simp del: split_nl.simps)
qed

lemma complete_lines_no_nl: "l \<in> set (complete_lines s) \<Longrightarrow> CHR 0x0A \<notin> set l"
proof (induction s arbitrary: l)
  case Nil
  then show ?case by (simp add: complete_lines_def)
next
  case (Cons c cs)
  obtain k ks where S: "split_nl cs = k # ks"
    using split_nl_nonempty [of cs] by (cases "split_nl cs") auto
  show ?case
  proof (cases "c = CHR 0x0A")
    case True
    with Cons.prems S have "l = [] \<or> l \<in> set (complete_lines cs)"
      by (auto simp: complete_lines_def)
    with Cons.IH show ?thesis by auto
  next
    case False
    show ?thesis
    proof (cases ks)
      case Nil
      with Cons.prems S False show ?thesis by (simp add: complete_lines_def)
    next
      case inner: (Cons m ms)
      with Cons.prems S False have "l = c # k \<or> l \<in> set (butlast ks)"
        by (auto simp: complete_lines_def)
      moreover have "k \<in> set (complete_lines cs)"
        using S inner by (simp add: complete_lines_def)
      moreover have "set (butlast ks) \<subseteq> set (complete_lines cs)"
        using S inner by (auto simp: complete_lines_def)
      ultimately show ?thesis using Cons.IH False by auto
    qed
  qed
qed

lemma join_lines:
  "concat (map (\<lambda>l. l @ [CHR 0x0A]) (complete_lines s)) @ last (split_nl s) = s"
proof (induction s)
  case Nil
  then show ?case by (simp add: complete_lines_def)
next
  case (Cons c cs)
  obtain k ks where S: "split_nl cs = k # ks"
    using split_nl_nonempty [of cs] by (cases "split_nl cs") auto
  with Cons show ?case
    by (cases ks) (auto simp: complete_lines_def)
qed

lemma read_loop_lines:
  assumes "CHR 0x0A \<notin> set buffer"
  shows "read_loop p buffer vs =
           (concat (map (process_line p) (complete_lines (buffer @ concat vs))),
            last (split_nl (buffer @ concat vs)))"
  using assms
proof (induction vs arbitrary: buffer)
  case Nil
  then show ?case by (simp add: complete_lines_def split_nl_plain)
next
  case (Cons v vs)
  let ?b = "last (split_nl (buffer @ v))"
  have ih: "read_loop p ?b vs =
              (concat (map (process_line p) (complete_lines (?b @ concat vs))),
               last (split_nl (?b @ concat vs)))"
    by (rule Cons.IH) (rule last_split_nl)
  have sp: "split_nl (buffer @ concat (v # vs)) =
              butlast (split_nl (buffer @ v)) @ split_nl (?b @ concat vs)"
    using split_nl_append [of "buffer @ v" "concat vs"] by simp
  have "complete_lines (buffer @ concat (v # vs)) =
          butlast (split_nl (buffer @ v)) @ complete_lines (?b @ concat vs)"
    unfolding complete_lines_def sp by (simp add: butlast_append split_nl_nonempty)
  moreover have "last (split_nl (buffer @ concat (v # vs))) = last (split_nl (?b @ concat vs))"
    unfolding sp by (simp add: split_nl_nonempty)
  ultimately show ?case
    using ih by (simp add: Let_def)
qed

lemma process_line_cases:
  "process_line p line =
     (if trim line = [] then []
      else (case p line of
              None \<Rightarrow> [LogParseFailure line]
            | Some JNull \<Rightarrow> [LogParseFailure line]
            | Some j \<Rightarrow>
                (case message_content j of
                   None \<Rightarrow> []
                 | Some c \<Rightarrow> if truthy (Some c) then [OnChunk c] else [])))"
proof (cases "trim line = []")
  case True
  then show ?thesis by (simp add: process_line_def)
next
  case False
  show ?thesis
  proof (cases "p line")
    case None
    with False show ?thesis by (simp add: process_line_def)
  next
    case (Some j)
    show ?thesis
    proof (cases j)
      case (JObj kvs)
      show ?thesis
      proof (cases "map_of kvs ''message''")
        case None
        with False Some JObj show ?thesis
          by (simp add: process_line_def message_content_def)
      next
        case inner: (Some m)
        with False Some JObj show ?thesis
          by (cases m) (auto simp: process_line_def message_content_def split: option.splits)
      qed
    qed (use False Some in \<open>simp_all add: process_line_def message_content_def\<close>)
  qed
qed

lemma process_line_from_loop: "list_all from_loop (process_line p line)"
  by (auto simp: process_line_cases split: option.splits json.splits)

lemma read_loop_from_loop: "list_all from_loop (fst (read_loop p buffer vs))"
  by (induction vs arbitrary: buffer) (auto simp: Let_def list_all_iff dest: in_set_butlastD
        intro: process_line_from_loop [unfolded list_all_iff, rule_format])

lemma stream_body_from_loop: "list_all from_loop (fst (stream_body p fetched))"
  using read_loop_from_loop [of p "[]"]
  by (auto simp: stream_body_def refuse_def throw_def split: fetch_result.splits option.splits sum.splits)

lemma callbacks_from_loop:
  "list_all from_loop evs \<Longrightarrow> filter is_callback evs = map OnChunk (delivered evs)"
proof (induction evs)
  case Nil
  then show ?case by (simp add: delivered_def List.map_filter_simps)
next
  case (Cons ev evs)
  then show ?case by (cases ev) (simp_all add: delivered_def List.map_filter_simps)
qed

lemma generateChatStream_trace:
  "generateChatStream p fetched =
     (fst (stream_body p fetched) @
        (case snd (stream_body p fetched) of
           Inl e \<Rightarrow> [LogStreamError e, OnError e]
         | Inr u \<Rightarrow> []) @ [OnClose],
      Inr ())"
  by (cases "snd (stream_body p fetched)")
     (simp_all add: generateChatStream_def try_finally_def try_catch_def seq_def call_def)

lemma no_close_from_loop:
  "list_all from_loop evs \<Longrightarrow> filter (\<lambda>ev. ev = OnClose) evs = []"
  by (induction evs) auto

lemma refuse_throws: "\<exists>e. refuse r = throw e"
  by (cases "text_result r") (auto simp: refuse_def)

text \<open>
  C3. Whatever the request and the reads do, \<^verbatim>\<open>generateChatStream\<close> returns without
  throwing, and its callbacks are called in this order: the chunk callback for every
  chunk the loop delivers, then the error callback once if the \<^verbatim>\<open>try\<close> block threw, then
  the finalizer, exactly once. The \<^verbatim>\<open>try\<close> block throws when the request rejects (a
  network error, the timeout, an abort), when the reply is not ok or has no body, and
  when a read rejects; it returns when the stream ends. A callback is taken to return,
  and a body to be finitely many reads followed by the end of the stream or a rejected
  read.
\<close>

theorem stream_finalizer_once:
  "snd (generateChatStream p fetched) = Inr () \<and>
   filter is_callback (fst (generateChatStream p fetched)) =
     map OnChunk (delivered (fst (stream_body p fetched))) @
     (case snd (stream_body p fetched) of Inl e \<Rightarrow> [OnError e] | Inr u \<Rightarrow> []) @ [OnClose] \<and>
   length (filter (\<lambda>ev. ev = OnClose) (fst (generateChatStream p fetched))) = 1 \<and>
   stream_body p (Rejected e) = throw e \<and>
   (\<not> ok r \<or> body r = None \<longrightarrow>
      stream_body p (Resolved r) = refuse r \<and> (\<exists>e'. refuse r = throw e')) \<and>
   (ok r \<and> body r = Some (vs, ending) \<longrightarrow>
      snd (stream_body p (Resolved r)) = (case ending of None \<Rightarrow> Inr () | Some e' \<Rightarrow> Inl e'))"
proof -
  note fl = stream_body_from_loop [of p fetched]
  have 1: "snd (generateChatStream p fetched) = Inr ()"
    by (simp add: generateChatStream_trace)
  have 2: "filter is_callback (fst (generateChatStream p fetched)) =
     map OnChunk (delivered (fst (stream_body p fetched))) @
     (case snd (stream_body p fetched) of Inl e \<Rightarrow> [OnError e] | Inr u \<Rightarrow> []) @ [OnClose]"
    using callbacks_from_loop [OF fl]
    by (cases "snd (stream_body p fetched)") (simp_all add: generateChatStream_trace)
  have 3: "length (filter (\<lambda>ev. ev = OnClose) (fst (generateChatStream p fetched))) = 1"
    using no_close_from_loop [OF fl]
    by (cases "snd (stream_body p fetched)") (simp_all add: generateChatStream_trace)
  have 4: "stream_body p (Rejected e) = throw e"
    by (simp add: stream_body_def)
  have 5: "stream_body p (Resolved r) = refuse r" if "\<not> ok r \<or> body r = None"
    using that by (auto simp: stream_body_def split: option.splits)
  have 6: "snd (stream_body p (Resolved r)) = (case ending of None \<Rightarrow> Inr () | Some e' \<Rightarrow> Inl e')"
    if "ok r \<and> body r = Some (vs, ending)"
    using that by (simp add: stream_body_def)
  show ?thesis
    using 1 2 3 4 5 6 refuse_throws [of r] by blast
qed

text \<open>
  C3 at a stream that delivers one record and then fails, with the traces of a rejected
  request, of a 404 reply and of an empty stream.
\<close>

theorem stream_finalizer_once_witness:
  \<open>snd (generateChatStream sample_parser
          (Resolved (ok_response ([''{"message":{"content":"Hi"}}\<newline>''], Some (Error ''reset''))))) = Inr () \<and>
   filter is_callback (fst (generateChatStream sample_parser
          (Resolved (ok_response ([''{"message":{"content":"Hi"}}\<newline>''], Some (Error ''reset'')))))) =
     [OnChunk (JStr ''Hi''), OnError (Error ''reset''), OnClose] \<and>
   fst (generateChatStream sample_parser (Rejected (Error ''Failed to fetch''))) =
     [LogStreamError (Error ''Failed to fetch''), OnError (Error ''Failed to fetch''), OnClose] \<and>
   fst (generateChatStream sample_parser
          (Resolved \<lparr>ok = False, status = 404, statusText = ''Not Found'', body = Some ([], None),
                     text_result = Inr ''no model''\<rparr>)) =
     [LogStreamError (Error ''Request failed: 404 Not Found - no model''),
      OnError (Error ''Request failed: 404 Not Found - no model''), OnClose] \<and>
   fst (generateChatStream sample_parser (Resolved (ok_response ([], None)))) = [OnClose]\<close>
  using stream_finalizer_once [of sample_parser
      \<open>Resolved (ok_response ([''{"message":{"content":"Hi"}}\<newline>''], Some (Error ''reset'')))\<close>]
  by (simp add: generateChatStream_trace stream_body_def ok_response_def sample_parser_def
        process_line_def trim_def is_space_def delivered_def
        refuse_def throw_def request_failed_def)

text \<open>
  C4, as the code has it. For a reply that is ok and has a body, the events of the call
  are those of the lines of the whole body that a line feed ends, in their order, however
  the body is cut into reads; then the error events if a read rejected, then the
  finalizer. The body is these lines, each with its line feed, and the rest after the
  last line feed, which is not a line. A line of white space gives no event; a line that
  does not parse, or parses to \<^verbatim>\<open>null\<close>, is logged; any other line gives one chunk
  call with the content of its message when that content is truthy, and no event
  otherwise.
\<close>

theorem stream_lines:
  assumes "ok r" and "body r = Some (vs, ending)"
  shows "fst (generateChatStream p (Resolved r)) =
           concat (map (process_line p) (complete_lines (concat vs))) @
           (case ending of None \<Rightarrow> [] | Some e \<Rightarrow> [LogStreamError e, OnError e]) @ [OnClose] \<and>
         concat (map (\<lambda>l. l @ [CHR 0x0A]) (complete_lines (concat vs))) @
           last (split_nl (concat vs)) = concat vs \<and>
         list_all (\<lambda>l. CHR 0x0A \<notin> set l) (complete_lines (concat vs)) \<and>
         CHR 0x0A \<notin> set (last (split_nl (concat vs))) \<and>
         process_line p line =
           (if trim line = [] then []
            else (case p line of
                    None \<Rightarrow> [LogParseFailure line]
                  | Some JNull \<Rightarrow> [LogParseFailure line]
                  | Some j \<Rightarrow>
                      (case message_content j of
                         None \<Rightarrow> []
                       | Some c \<Rightarrow> if truthy (Some c) then [OnChunk c] else [])))"
proof -
  have "fst (stream_body p (Resolved r)) = concat (map (process_line p) (complete_lines (concat vs)))"
    using assms read_loop_lines [of "[]" p vs] by (simp add: stream_body_def)
  moreover have "snd (stream_body p (Resolved r)) = (case ending of None \<Rightarrow> Inr () | Some e \<Rightarrow> Inl e)"
    using assms by (simp add: stream_body_def)
  ultimately have 1: "fst (generateChatStream p (Resolved r)) =
           concat (map (process_line p) (complete_lines (concat vs))) @
           (case ending of None \<Rightarrow> [] | Some e \<Rightarrow> [LogStreamError e, OnError e]) @ [OnClose]"
    by (cases ending) (simp_all add: generateChatStream_trace)
  have 3: "list_all (\<lambda>l. CHR 0x0A \<notin> set l) (complete_lines (concat vs))"
    unfolding list_all_iff using complete_lines_no_nl by blast
  show ?thesis
    using 1 3 join_lines [of "concat vs"] last_split_nl [of "concat vs"] process_line_cases [of p line]
    by (simp only: simp_thms)
qed

text \<open>
  C4 at a body of four lines cut into two reads inside the second line: a record, a
  line that does not parse, a line of spaces and a record without a message.
\<close>

theorem stream_lines_witness:
  \<open>fst (generateChatStream sample_parser
          (Resolved (ok_response
             ([''{"message":{"content":"Hi"}}\<newline>not js'', ''on\<newline>  \<newline>{"done":true}\<newline>''], None)))) =
     [OnChunk (JStr ''Hi''), LogParseFailure ''not json'', OnClose] \<and>
   complete_lines
     (concat [''{"message":{"content":"Hi"}}\<newline>not js'', ''on\<newline>  \<newline>{"done":true}\<newline>'']) =
     [''{"message":{"content":"Hi"}}'', ''not json'', ''  '', ''{"done":true}'']\<close>
proof -
  have 1: \<open>ok (ok_response
             ([''{"message":{"content":"Hi"}}\<newline>not js'', ''on\<newline>  \<newline>{"done":true}\<newline>''], None))\<close>
    by (simp add: ok_response_def)
  have 2: \<open>body (ok_response
             ([''{"message":{"content":"Hi"}}\<newline>not js'', ''on\<newline>  \<newline>{"done":true}\<newline>''], None)) =
           Some ([''{"message":{"content":"Hi"}}\<newline>not js'', ''on\<newline>  \<newline>{"done":true}\<newline>''], None)\<close>
    by (simp add: ok_response_def)
  show ?thesis
    using stream_lines [OF 1 2, of sample_parser]
    by (simp add: complete_lines_def sample_parser_def process_line_def trim_def is_space_def)
qed

text \<open>
  C4 as the specification states it fails for a body that is one record with no line
  feed after it: the record has a content, and the chunk callback is never called.
\<close>

theorem stream_lines_counterexample:
  \<open>process_line sample_parser ''{"message":{"content":"Hi"}}'' = [OnChunk (JStr ''Hi'')] \<and>
   fst (generateChatStream sample_parser
          (Resolved (ok_response ([''{"message":{"content":"Hi"}}''], None)))) = [OnClose]\<close>
  by (simp add: generateChatStream_trace stream_body_def ok_response_def sample_parser_def
        process_line_def trim_def is_space_def)

lemma split_nl_terminated: "CHR 0x0A \<notin> set x \<Longrightarrow> split_nl (x @ [CHR 0x0A]) = [x, []]"
  by (induction x) auto

lemma split_nl_ends:
  assumes "pre = [] \<or> last pre = CHR 0x0A"
  shows "last (split_nl pre) = []"
proof (cases "pre = []")
  case True
  then show ?thesis by simp
next
  case False
  with assms have "pre = butlast pre @ [CHR 0x0A]"
    using append_butlast_last_id [of pre] by simp
  then have "split_nl pre =
      butlast (split_nl (butlast pre)) @ split_nl (last (split_nl (butlast pre)) @ [CHR 0x0A])"
    using split_nl_append [of "butlast pre" "[CHR 0x0A]"] by simp
  also have "\<dots> = butlast (split_nl (butlast pre)) @ [last (split_nl (butlast pre)), []]"
    using split_nl_terminated [OF last_split_nl, of "butlast pre"] by simp
  finally show ?thesis by simp
qed

lemma split_nl_tail:
  assumes "CHR 0x0A \<notin> set tail" and "pre = [] \<or> last pre = CHR 0x0A"
  shows "complete_lines (pre @ tail) = complete_lines pre" and "last (split_nl (pre @ tail)) = tail"
proof -
  have "split_nl (pre @ tail) = butlast (split_nl pre) @ [tail]"
    using split_nl_append [of pre tail] split_nl_ends [OF assms(2)] split_nl_plain [OF assms(1)]
    by simp
  then show "complete_lines (pre @ tail) = complete_lines pre"
    and "last (split_nl (pre @ tail)) = tail"
    by (simp_all add: complete_lines_def)
qed

lemma process_lines_cong:
  "\<forall>l\<in>set ls. p' l = p l \<Longrightarrow> map (process_line p') ls = map (process_line p) ls"
  by (simp add: process_line_def)

text \<open>
  C10. Let the body be a part that is empty or ends with a line feed, followed by a
  tail without a line feed. When the reads are used up the tail is what the buffer
  holds, and the events are those of the lines of the first part alone: the call gives
  the same result as for the body without the tail, and it does not depend on what the
  parser says about any text that is not a line of the first part.
\<close>

theorem unterminated_tail_dropped:
  assumes "concat vs = pre @ tail" and "CHR 0x0A \<notin> set tail"
    and "pre = [] \<or> last pre = CHR 0x0A"
  shows "snd (read_loop p [] vs) = tail \<and>
         fst (read_loop p [] vs) = concat (map (process_line p) (complete_lines pre)) \<and>
         (ok r \<and> body r = Some (vs, ending) \<longrightarrow>
            generateChatStream p (Resolved r) =
            generateChatStream p (Resolved (r\<lparr>body := Some ([pre], ending)\<rparr>))) \<and>
         ((\<forall>l\<in>set (complete_lines pre). p' l = p l) \<longrightarrow>
            read_loop p' [] vs = read_loop p [] vs)"
proof -
  note t = split_nl_tail [OF assms(2,3)]
  have rl: "read_loop q [] vs = (concat (map (process_line q) (complete_lines pre)), tail)" for q
    using read_loop_lines [of "[]" q vs] by (simp add: assms(1) t)
  have pre: "read_loop p [] [pre] = (concat (map (process_line p) (complete_lines pre)), [])"
    using read_loop_lines [of "[]" p "[pre]"] split_nl_ends [OF assms(3)] by simp
  have 3: "generateChatStream p (Resolved r) =
            generateChatStream p (Resolved (r\<lparr>body := Some ([pre], ending)\<rparr>))"
    if "ok r \<and> body r = Some (vs, ending)"
    using that by (simp add: generateChatStream_trace stream_body_def rl pre del: read_loop.simps)
  have 4: "read_loop p' [] vs = read_loop p [] vs"
    if "\<forall>l\<in>set (complete_lines pre). p' l = p l"
    unfolding rl process_lines_cong [OF that] ..
  show ?thesis
    using rl [of p] 3 4 by simp
qed

text \<open>
  C10 at a body of two records cut into two reads, the second record without a line
  feed: the second record would give a chunk, and only the first one does.
\<close>

theorem unterminated_tail_dropped_witness:
  \<open>snd (read_loop sample_parser [] [''{"message":{"content":"Hi"}}\<newline>{"mess'', ''age":{"content":"Hi"}}'']) =
     ''{"message":{"content":"Hi"}}'' \<and>
   fst (read_loop sample_parser [] [''{"message":{"content":"Hi"}}\<newline>{"mess'', ''age":{"content":"Hi"}}'']) =
     [OnChunk (JStr ''Hi'')] \<and>
   process_line sample_parser ''{"message":{"content":"Hi"}}'' = [OnChunk (JStr ''Hi'')] \<and>
   fst (generateChatStream sample_parser (Resolved (ok_response
          ([''{"message":{"content":"Hi"}}\<newline>{"mess'', ''age":{"content":"Hi"}}''], None)))) =
     [OnChunk (JStr ''Hi''), OnClose]\<close>
proof -
  have 1: \<open>concat [''{"message":{"content":"Hi"}}\<newline>{"mess'', ''age":{"content":"Hi"}}''] =
           ''{"message":{"content":"Hi"}}\<newline>'' @ ''{"message":{"content":"Hi"}}''\<close>
    by simp
  have 2: \<open>CHR 0x0A \<notin> set ''{"message":{"content":"Hi"}}''\<close>
    by simp
  have 3: \<open>''{"message":{"content":"Hi"}}\<newline>'' = [] \<or> last ''{"message":{"content":"Hi"}}\<newline>'' = CHR 0x0A\<close>
    by simp
  show ?thesis
    using unterminated_tail_dropped [OF 1 2 3, of sample_parser
        \<open>ok_response ([''{"message":{"content":"Hi"}}\<newline>{"mess'', ''age":{"content":"Hi"}}''], None)\<close>
        None sample_parser]
    by (simp add: complete_lines_def sample_parser_def process_line_def trim_def is_space_def
          ok_response_def generateChatStream_trace stream_body_def)
qed

text \<open>
  C7. The effect sets the mode to speaking when the hook speaks and the mode is another
  one, sets it to standby when the hook does not speak and the mode is speaking, and
  leaves it otherwise. After the effect the mode is speaking exactly when the hook
  speaks, a second run changes nothing, and a change made by the effect is one of these
  two.
\<close>

theorem mode_sync:
  "(s = Speaking \<and> m \<noteq> Mode_speaking \<longrightarrow> sync_mode s m = Mode_speaking) \<and>
   (s \<noteq> Speaking \<and> m = Mode_speaking \<longrightarrow> sync_mode s m = Mode_standby) \<and>
   (\<not> (s = Speaking \<and> m \<noteq> Mode_speaking) \<and> \<not> (s \<noteq> Speaking \<and> m = Mode_speaking) \<longrightarrow>
      sync_mode s m = m) \<and>
   (sync_mode s m = Mode_speaking \<longleftrightarrow> s = Speaking) \<and>
   sync_mode s (sync_mode s m) = sync_mode s m \<and>
   (sync_mode s m \<noteq> m \<longrightarrow> sync_mode s m = Mode_speaking \<or> sync_mode s m = Mode_standby)"
  by (auto simp: sync_mode_def)

text \<open>C7 at four pairs of a speech state and a mode, one for each rule and two at rest.\<close>

theorem mode_sync_witness:
  "sync_mode Speaking Mode_responding = Mode_speaking \<and>
   sync_mode Idle Mode_speaking = Mode_standby \<and>
   sync_mode Listening Mode_listening = Mode_listening \<and>
   sync_mode Idle Mode_responding = Mode_responding"
  using mode_sync [of Speaking Mode_responding] mode_sync [of Idle Mode_speaking]
    mode_sync [of Listening Mode_listening] mode_sync [of Idle Mode_responding]
  by simp

lemma deliver_keeps_shape:
  assumes "from_loop ev" and "messages c = pre @ [m]" and "role m = ASSISTANT"
  shows "\<exists>m'. messages (deliver seen c ev) = pre @ [m'] \<and> role m' = ASSISTANT"
proof (cases ev)
  case (OnChunk chunk)
  show ?thesis
  proof (cases chunk)
    case (JStr s)
    have "append_chunk s (pre @ [m]) = Some (pre @ [m\<lparr>content := content m @ s\<rparr>])"
      using assms(3) by (simp add: append_chunk_def Let_def nth_append)
    with OnChunk JStr assms show ?thesis
      by (simp add: stream_onChunk_def)
  qed (use OnChunk assms in \<open>simp_all add: stream_onChunk_def\<close>)
qed (use assms in simp_all)

lemma fold_keeps_shape:
  assumes "list_all from_loop evs" and "messages c = pre @ [m]" and "role m = ASSISTANT"
  shows "\<exists>m'. messages (foldl (deliver seen) c evs) = pre @ [m'] \<and> role m' = ASSISTANT"
  using assms
proof (induction evs arbitrary: c m)
  case Nil
  then show ?case by simp
next
  case (Cons ev evs)
  from Cons.prems obtain m' where
    "messages (deliver seen c ev) = pre @ [m']" "role m' = ASSISTANT"
    using deliver_keeps_shape [of ev c pre m seen] by auto
  with Cons.IH [of "deliver seen c ev" m'] Cons.prems(1) show ?case by simp
qed

lemma replace_last_snoc: "replace_last n (pre @ [m]) = pre @ [n]"
  by (simp add: replace_last_def)

lemma replace_last_butlast: "prev \<noteq> [] \<Longrightarrow> replace_last n prev = butlast prev @ [n]"
  using replace_last_snoc [of n "butlast prev" "last prev"] by simp

text \<open>
  C8. When the \<^verbatim>\<open>try\<close> block of the streaming call throws, the messages after
  \<^verbatim>\<open>handleUserMessage\<close> are the captured history, the user message and one assistant
  message whose content is the formatted error string, whatever the chunks before had
  appended; the last call of \<^verbatim>\<open>speak\<close> is with that same string. The string is the
  fixed prefix followed by the message of the error. The error callback alone, on any
  non-empty list, replaces the last message and keeps the others.
\<close>

theorem stream_error_replaces:
  assumes "snd (stream_body p fetched) = Inl e"
  shows "messages (handleUserMessage p seen captured t fetched c) =
           captured @ [\<lparr>role = USER, content = t\<rparr>,
                       \<lparr>role = ASSISTANT, content = errorMessage e\<rparr>] \<and>
         speechHook (handleUserMessage p seen captured t fetched c) =
           speak seen (errorMessage e)
             (speechHook
                (foldl (deliver seen)
                   (c\<lparr>messages := captured @ [\<lparr>role = USER, content = t\<rparr>,
                                                \<lparr>role = ASSISTANT, content = []\<rparr>]\<rparr>)
                   (fst (stream_body p fetched)))) \<and>
         errorMessage e = ''Sorry, I encountered an error: '' @ message e \<and>
         (messages c' \<noteq> [] \<longrightarrow>
            messages (stream_onError seen e' c') =
              butlast (messages c') @ [\<lparr>role = ASSISTANT, content = errorMessage e'\<rparr>] \<and>
            speechHook (stream_onError seen e' c') = speak seen (errorMessage e') (speechHook c'))"
proof -
  define c1 where "c1 = c\<lparr>messages := captured @ [\<lparr>role = USER, content = t\<rparr>,
                                                   \<lparr>role = ASSISTANT, content = []\<rparr>]\<rparr>"
  define c2 where "c2 = foldl (deliver seen) c1 (fst (stream_body p fetched))"
  have "messages c1 = (captured @ [\<lparr>role = USER, content = t\<rparr>]) @ [\<lparr>role = ASSISTANT, content = []\<rparr>]"
    by (simp add: c1_def)
  moreover have "role \<lparr>role = ASSISTANT, content = []\<rparr> = ASSISTANT"
    by simp
  ultimately have "\<exists>m'. messages c2 = (captured @ [\<lparr>role = USER, content = t\<rparr>]) @ [m'] \<and>
                    role m' = ASSISTANT"
    unfolding c2_def by (rule fold_keeps_shape [OF stream_body_from_loop])
  then obtain m' where m': "messages c2 = (captured @ [\<lparr>role = USER, content = t\<rparr>]) @ [m']"
    by blast
  have h: "handleUserMessage p seen captured t fetched c = stream_onError seen e c2"
    using assms by (simp add: handleUserMessage_def generateChatStream_trace c1_def c2_def)
  have 1: "messages (stream_onError seen e c2) =
             captured @ [\<lparr>role = USER, content = t\<rparr>, \<lparr>role = ASSISTANT, content = errorMessage e\<rparr>]"
    unfolding stream_onError_def using replace_last_snoc [of _ "captured @ [\<lparr>role = USER, content = t\<rparr>]" m']
    by (simp add: m')
  have 2: "speechHook (stream_onError seen e c2) = speak seen (errorMessage e) (speechHook c2)"
    by (simp add: stream_onError_def)
  have 4: "messages (stream_onError seen e' c') =
              butlast (messages c') @ [\<lparr>role = ASSISTANT, content = errorMessage e'\<rparr>] \<and>
            speechHook (stream_onError seen e' c') = speak seen (errorMessage e') (speechHook c')"
    if "messages c' \<noteq> []"
    using replace_last_butlast [OF that] by (simp add: stream_onError_def)
  show ?thesis
    unfolding h using 1 2 4 by (simp add: errorMessage_def c2_def c1_def)
qed

text \<open>
  C8 at a stream that delivers the chunk \<^verbatim>\<open>Hi\<close> and then fails: the assistant message
  held \<^verbatim>\<open>Hi\<close> before the error and holds only the error string after it.
\<close>

theorem stream_error_replaces_witness:
  \<open>messages (handleUserMessage sample_parser Idle [] ''hello''
       (Resolved (ok_response ([''{"message":{"content":"Hi"}}\<newline>''], Some (Error ''reset''))))
       \<lparr>messages = [], speechHook = initial None\<rparr>) =
     [\<lparr>role = USER, content = ''hello''\<rparr>,
      \<lparr>role = ASSISTANT, content = ''Sorry, I encountered an error: reset''\<rparr>] \<and>
   messages (foldl (deliver Idle)
       \<lparr>messages = [\<lparr>role = USER, content = ''hello''\<rparr>, \<lparr>role = ASSISTANT, content = []\<rparr>],
        speechHook = initial None\<rparr>
       (fst (stream_body sample_parser
          (Resolved (ok_response ([''{"message":{"content":"Hi"}}\<newline>''], Some (Error ''reset''))))))) =
     [\<lparr>role = USER, content = ''hello''\<rparr>, \<lparr>role = ASSISTANT, content = ''Hi''\<rparr>] \<and>
   effects (speechHook (handleUserMessage sample_parser Idle [] ''hello''
       (Resolved (ok_response ([''{"message":{"content":"Hi"}}\<newline>''], Some (Error ''reset''))))
       \<lparr>messages = [], speechHook = initial None\<rparr>)) =
     [SynthSpeak ''Hi'', SynthSpeak ''Sorry, I encountered an error: reset'']\<close>
proof -
  have 1: \<open>snd (stream_body sample_parser
      (Resolved (ok_response ([''{"message":{"content":"Hi"}}\<newline>''], Some (Error ''reset''))))) =
      Inl (Error ''reset'')\<close>
    by (simp add: stream_body_def ok_response_def)
  have 2: \<open>fst (stream_body sample_parser
      (Resolved (ok_response ([''{"message":{"content":"Hi"}}\<newline>''], Some (Error ''reset''))))) =
      [OnChunk (JStr ''Hi'')]\<close>
    by (simp add: stream_body_def ok_response_def sample_parser_def process_line_def trim_def
          is_space_def)
  show ?thesis
    using stream_error_replaces [OF 1, of Idle "[]" "''hello''"
        "\<lparr>messages = [], speechHook = initial None\<rparr>"]
    unfolding 2
    by (simp add: errorMessage_def stream_onChunk_def append_chunk_def speak_def enqueue_def
          spoken_fragments_def sentences_def processSentenceQueue_def emit_def initial_def
          is_terminator_def is_delimiter_def trim_def is_space_def)
qed

end
